theory Spec2Isabelle
  imports Main "HOL-Library.Product_Lexorder"
begin

section \<open>Data model of the paging simulator\<close>

text \<open>
  The four simulators of \<^verbatim>\<open>secondapp.py\<close> are Python loops over the reference string that
  mutate a list of frames, a few counters and (for LRU and LFU) dictionaries. Each loop is
  modelled as a step function on a record of the local variables, iterated over the
  reference string. A Python exception is a value \<open>Inl e\<close>; it ends the loop and the
  call, and nothing of the state built so far is returned.

  Pages, the frame count and the values stored in the dictionaries are Python integers
  (\<open>int\<close>). The counters only ever count up from zero and are natural numbers.
\<close>

datatype error = IndexError | ValueError | KeyError | ZeroDivisionError

datatype status = HIT | FAULT

type_synonym page = int

type_synonym step_record = "page \<times> page list \<times> status"

text \<open>
  A log line is an f-string built from the step number, the page and, for a replacement,
  the victim. The model keeps these interpolated values and the kind of line; the constant
  words of the line (among them the name of the algorithm) are left out.
\<close>

datatype log_entry =
    LogHit nat page
  | LogLoaded nat page
  | LogReplaced nat page page

type_synonym result = "step_record list \<times> nat \<times> nat \<times> log_entry list"

record sim_state =
  frames :: "page list"
  faults :: nat
  hits :: nat
  steps :: "step_record list"
  log :: "log_entry list"

record fifo_state = sim_state +
  queue_index :: int

record lru_state = sim_state +
  recent :: "page \<rightharpoonup> int"

record lfu_state = sim_state +
  freq :: "page \<rightharpoonup> int"
  time :: "page \<rightharpoonup> int"

subsection \<open>Python list and dictionary primitives\<close>

text \<open>\<^verbatim>\<open>xs[i]\<close>: a negative index counts from the end, an index out of range raises.\<close>

definition py_index :: "'a list \<Rightarrow> int \<Rightarrow> nat option" where
  "py_index xs i =
     (if 0 \<le> i \<and> i < int (length xs) then Some (nat i)
      else if - int (length xs) \<le> i \<and> i < 0 then Some (nat (int (length xs) + i))
      else None)"

text \<open>\<^verbatim>\<open>xs.index(x)\<close>: the first position of \<open>x\<close>, or ValueError (here \<open>None\<close>).\<close>

fun index_of :: "'a \<Rightarrow> 'a list \<Rightarrow> nat option" where
  "index_of x [] = None"
| "index_of x (y # ys) = (if x = y then Some 0 else map_option Suc (index_of x ys))"

text \<open>
  \<^verbatim>\<open>min(xs, key=f)\<close>: ValueError on an empty sequence; otherwise the items are visited in
  order, the key of each is computed (which may itself raise), and an item replaces the
  current best only when its key is strictly smaller.
\<close>

fun min_scan :: "('a \<Rightarrow> error + 'k::linorder) \<Rightarrow> 'a \<Rightarrow> 'k \<Rightarrow> 'a list \<Rightarrow> error + 'a" where
  "min_scan key best kbest [] = Inr best"
| "min_scan key best kbest (x # xs) =
     (case key x of
        Inl e \<Rightarrow> Inl e
      | Inr kx \<Rightarrow> if kx < kbest then min_scan key x kx xs
                  else min_scan key best kbest xs)"

definition py_min :: "('a \<Rightarrow> error + 'k::linorder) \<Rightarrow> 'a list \<Rightarrow> error + 'a" where
  "py_min key xs =
     (case xs of
        [] \<Rightarrow> Inl ValueError
      | x # rest \<Rightarrow> (case key x of Inl e \<Rightarrow> Inl e | Inr kx \<Rightarrow> min_scan key x kx rest))"

text \<open>
  Python compares tuples lexicographically; so does \<open><\<close> on pairs here
  (the lexicographic order of \<open>HOL-Library.Product_Lexorder\<close>:
  \<open>(a, b) < (c, d) \<longleftrightarrow> a < c \<or> a \<le> c \<and> b < d\<close>).
\<close>

definition result_of :: "('a sim_state_scheme) \<Rightarrow> result" where
  "result_of s = (steps s, faults s, hits s, log s)"

section \<open>FIFO\<close>

definition fifo_init :: fifo_state where
  "fifo_init = \<lparr>frames = [], faults = 0, hits = 0, steps = [], log = [], queue_index = 0\<rparr>"

definition fifo_step :: "int \<Rightarrow> nat \<Rightarrow> page \<Rightarrow> fifo_state \<Rightarrow> error + fifo_state" where
  "fifo_step frame_count step page s =
     (if page \<in> set (frames s) then
        Inr (s\<lparr>hits := hits s + 1,
               log := log s @ [LogHit step page],
               steps := steps s @ [(page, frames s, HIT)]\<rparr>)
      else if int (length (frames s)) < frame_count then
        Inr (s\<lparr>faults := faults s + 1,
               frames := frames s @ [page],
               log := log s @ [LogLoaded step page],
               steps := steps s @ [(page, frames s @ [page], FAULT)]\<rparr>)
      else
        (case py_index (frames s) (queue_index s) of
           None \<Rightarrow> Inl IndexError
         | Some j \<Rightarrow>
             if frame_count = 0 then Inl ZeroDivisionError
             else
               Inr (s\<lparr>faults := faults s + 1,
                      frames := (frames s)[j := page],
                      log := log s @ [LogReplaced step page (frames s ! j)],
                      queue_index := (queue_index s + 1) mod frame_count,
                      steps := steps s @ [(page, (frames s)[j := page], FAULT)]\<rparr>)))"

text \<open>\<^verbatim>\<open>for step, page in enumerate(pages, start=1)\<close>\<close>

fun fifo_loop :: "int \<Rightarrow> nat \<Rightarrow> fifo_state \<Rightarrow> page list \<Rightarrow> error + fifo_state" where
  "fifo_loop frame_count step s [] = Inr s"
| "fifo_loop frame_count step s (page # rest) =
     (case fifo_step frame_count step page s of
        Inl e \<Rightarrow> Inl e
      | Inr s' \<Rightarrow> fifo_loop frame_count (Suc step) s' rest)"

definition fifo_page_replacement :: "page list \<Rightarrow> int \<Rightarrow> error + result" where
  "fifo_page_replacement pages frame_count =
     (case fifo_loop frame_count 1 fifo_init pages of
        Inl e \<Rightarrow> Inl e
      | Inr s \<Rightarrow> Inr (result_of s))"

section \<open>LRU\<close>

definition lru_init :: lru_state where
  "lru_init = \<lparr>frames = [], faults = 0, hits = 0, steps = [], log = [], recent = Map.empty\<rparr>"

text \<open>\<^verbatim>\<open>lambda p: recent.get(p, -1)\<close>\<close>

definition recent_key :: "(page \<rightharpoonup> int) \<Rightarrow> page \<Rightarrow> error + int" where
  "recent_key r p = Inr (case r p of None \<Rightarrow> - 1 | Some v \<Rightarrow> v)"

definition lru_step :: "int \<Rightarrow> nat \<Rightarrow> page \<Rightarrow> lru_state \<Rightarrow> error + lru_state" where
  "lru_step frame_count i page s =
     (if page \<in> set (frames s) then
        Inr (s\<lparr>hits := hits s + 1,
               log := log s @ [LogHit (i + 1) page],
               recent := (recent s)(page \<mapsto> int i),
               steps := steps s @ [(page, frames s, HIT)]\<rparr>)
      else if int (length (frames s)) < frame_count then
        Inr (s\<lparr>faults := faults s + 1,
               frames := frames s @ [page],
               log := log s @ [LogLoaded (i + 1) page],
               recent := (recent s)(page \<mapsto> int i),
               steps := steps s @ [(page, frames s @ [page], FAULT)]\<rparr>)
      else
        (case py_min (recent_key (recent s)) (frames s) of
           Inl e \<Rightarrow> Inl e
         | Inr lru_page \<Rightarrow>
             (case index_of lru_page (frames s) of
                None \<Rightarrow> Inl ValueError
              | Some idx \<Rightarrow>
                  Inr (s\<lparr>faults := faults s + 1,
                         frames := (frames s)[idx := page],
                         log := log s @ [LogReplaced (i + 1) page lru_page],
                         recent := (recent s)(page \<mapsto> int i),
                         steps := steps s @ [(page, (frames s)[idx := page], FAULT)]\<rparr>))))"

text \<open>\<^verbatim>\<open>for i, page in enumerate(pages)\<close>\<close>

fun lru_loop :: "int \<Rightarrow> nat \<Rightarrow> lru_state \<Rightarrow> page list \<Rightarrow> error + lru_state" where
  "lru_loop frame_count i s [] = Inr s"
| "lru_loop frame_count i s (page # rest) =
     (case lru_step frame_count i page s of
        Inl e \<Rightarrow> Inl e
      | Inr s' \<Rightarrow> lru_loop frame_count (Suc i) s' rest)"

definition lru_page_replacement :: "page list \<Rightarrow> int \<Rightarrow> error + result" where
  "lru_page_replacement pages frame_count =
     (case lru_loop frame_count 0 lru_init pages of
        Inl e \<Rightarrow> Inl e
      | Inr s \<Rightarrow> Inr (result_of s))"

section \<open>OPTIMAL\<close>

text \<open>
  \<^verbatim>\<open>next_use\<close> is an index into \<^verbatim>\<open>future\<close> or \<^verbatim>\<open>float('inf')\<close>, and \<^verbatim>\<open>farthest_index\<close>
  starts at \<open>-1\<close>: the values compared are integers and the positive infinity.
\<close>

datatype distance = Fin int | Infinite

fun dist_gt :: "distance \<Rightarrow> distance \<Rightarrow> bool" where
  "dist_gt (Fin a) (Fin b) = (a > b)"
| "dist_gt Infinite (Fin b) = True"
| "dist_gt (Fin a) Infinite = False"
| "dist_gt Infinite Infinite = False"

definition next_use :: "page list \<Rightarrow> page \<Rightarrow> distance" where
  "next_use future f =
     (case index_of f future of None \<Rightarrow> Infinite | Some n \<Rightarrow> Fin (int n))"

text \<open>The inner loop \<^verbatim>\<open>for f in frames\<close> on the pair \<^verbatim>\<open>(farthest_index, replace_page)\<close>.\<close>

fun opt_scan :: "page list \<Rightarrow> distance \<times> page option \<Rightarrow> page list \<Rightarrow> distance \<times> page option" where
  "opt_scan future acc [] = acc"
| "opt_scan future (farthest_index, replace_page) (f # fs) =
     (if dist_gt (next_use future f) farthest_index
      then opt_scan future (next_use future f, Some f) fs
      else opt_scan future (farthest_index, replace_page) fs)"

definition opt_victim :: "page list \<Rightarrow> page list \<Rightarrow> page option" where
  "opt_victim future fs = snd (opt_scan future (Fin (- 1), None) fs)"

definition opt_init :: "sim_state" where
  "opt_init = \<lparr>frames = [], faults = 0, hits = 0, steps = [], log = []\<rparr>"

definition opt_step :: "int \<Rightarrow> page list \<Rightarrow> nat \<Rightarrow> page \<Rightarrow> sim_state \<Rightarrow> error + sim_state" where
  "opt_step frame_count pages i page s =
     (if page \<in> set (frames s) then
        Inr (s\<lparr>hits := hits s + 1,
               log := log s @ [LogHit (i + 1) page],
               steps := steps s @ [(page, frames s, HIT)]\<rparr>)
      else if int (length (frames s)) < frame_count then
        Inr (s\<lparr>faults := faults s + 1,
               frames := frames s @ [page],
               log := log s @ [LogLoaded (i + 1) page],
               steps := steps s @ [(page, frames s @ [page], FAULT)]\<rparr>)
      else
        (case opt_victim (drop (i + 1) pages) (frames s) of
           None \<Rightarrow> Inl ValueError
         | Some replace_page \<Rightarrow>
             (case index_of replace_page (frames s) of
                None \<Rightarrow> Inl ValueError
              | Some idx \<Rightarrow>
                  Inr (s\<lparr>faults := faults s + 1,
                         frames := (frames s)[idx := page],
                         log := log s @ [LogReplaced (i + 1) page replace_page],
                         steps := steps s @ [(page, (frames s)[idx := page], FAULT)]\<rparr>))))"

text \<open>
  \<^verbatim>\<open>for i, page in enumerate(pages)\<close>; the whole list \<open>pages\<close> stays at hand for the
  slice \<^verbatim>\<open>pages[i + 1:]\<close>.
\<close>

fun opt_loop :: "int \<Rightarrow> page list \<Rightarrow> nat \<Rightarrow> sim_state \<Rightarrow> page list \<Rightarrow> error + sim_state" where
  "opt_loop frame_count pages i s [] = Inr s"
| "opt_loop frame_count pages i s (page # rest) =
     (case opt_step frame_count pages i page s of
        Inl e \<Rightarrow> Inl e
      | Inr s' \<Rightarrow> opt_loop frame_count pages (Suc i) s' rest)"

definition optimal_page_replacement :: "page list \<Rightarrow> int \<Rightarrow> error + result" where
  "optimal_page_replacement pages frame_count =
     (case opt_loop frame_count pages 0 opt_init pages of
        Inl e \<Rightarrow> Inl e
      | Inr s \<Rightarrow> Inr (result_of s))"

section \<open>LFU\<close>

definition lfu_init :: lfu_state where
  "lfu_init = \<lparr>frames = [], faults = 0, hits = 0, steps = [], log = [],
                freq = Map.empty, time = Map.empty\<rparr>"

text \<open>\<^verbatim>\<open>lambda p: (freq[p], time[p])\<close>: a missing key raises KeyError.\<close>

definition lfu_key :: "(page \<rightharpoonup> int) \<Rightarrow> (page \<rightharpoonup> int) \<Rightarrow> page \<Rightarrow> error + int \<times> int" where
  "lfu_key fr tm p =
     (case fr p of
        None \<Rightarrow> Inl KeyError
      | Some f \<Rightarrow> (case tm p of None \<Rightarrow> Inl KeyError | Some t \<Rightarrow> Inr (f, t)))"

definition lfu_step :: "int \<Rightarrow> nat \<Rightarrow> page \<Rightarrow> lfu_state \<Rightarrow> error + lfu_state" where
  "lfu_step frame_count i page s =
     (if page \<in> set (frames s) then
        (case freq s page of
           None \<Rightarrow> Inl KeyError
         | Some c \<Rightarrow>
             Inr (s\<lparr>hits := hits s + 1,
                    freq := (freq s)(page \<mapsto> c + 1),
                    time := (time s)(page \<mapsto> int i),
                    log := log s @ [LogHit (i + 1) page],
                    steps := steps s @ [(page, frames s, HIT)]\<rparr>))
      else if int (length (frames s)) < frame_count then
        Inr (s\<lparr>faults := faults s + 1,
               frames := frames s @ [page],
               freq := (freq s)(page \<mapsto> 1),
               time := (time s)(page \<mapsto> int i),
               log := log s @ [LogLoaded (i + 1) page],
               steps := steps s @ [(page, frames s @ [page], FAULT)]\<rparr>)
      else
        (case py_min (lfu_key (freq s) (time s)) (frames s) of
           Inl e \<Rightarrow> Inl e
         | Inr victim \<Rightarrow>
             (case index_of victim (frames s) of
                None \<Rightarrow> Inl ValueError
              | Some idx \<Rightarrow>
                  if freq s victim = None \<or> time s victim = None then Inl KeyError
                  else
                    Inr (s\<lparr>faults := faults s + 1,
                           log := log s @ [LogReplaced (i + 1) page victim],
                           frames := (frames s)[idx := page],
                           freq := ((freq s)(victim := None))(page \<mapsto> 1),
                           time := ((time s)(victim := None))(page \<mapsto> int i),
                           steps := steps s @ [(page, (frames s)[idx := page], FAULT)]\<rparr>))))"

fun lfu_loop :: "int \<Rightarrow> nat \<Rightarrow> lfu_state \<Rightarrow> page list \<Rightarrow> error + lfu_state" where
  "lfu_loop frame_count i s [] = Inr s"
| "lfu_loop frame_count i s (page # rest) =
     (case lfu_step frame_count i page s of
        Inl e \<Rightarrow> Inl e
      | Inr s' \<Rightarrow> lfu_loop frame_count (Suc i) s' rest)"

definition lfu_page_replacement :: "page list \<Rightarrow> int \<Rightarrow> error + result" where
  "lfu_page_replacement pages frame_count =
     (case lfu_loop frame_count 0 lfu_init pages of
        Inl e \<Rightarrow> Inl e
      | Inr s \<Rightarrow> Inr (result_of s))"

section \<open>Input validation and comparison (the callers of the simulators)\<close>

text \<open>
  \<^verbatim>\<open>parse_input\<close> reads the two text fields. The conversions \<^verbatim>\<open>int(...)\<close> of the frame
  field and \<^verbatim>\<open>list(map(int, ...split()))\<close> of the reference field are taken as given:
  each argument is the converted value, or \<open>None\<close> where the conversion raises
  ValueError. The bare \<^verbatim>\<open>except\<close> turns every failure into the one result
  \<^verbatim>\<open>(None, None)\<close>, here \<open>None\<close>.
\<close>

definition parse_input :: "int option \<Rightarrow> page list option \<Rightarrow> (page list \<times> int) option" where
  "parse_input frame_field ref_field =
     (case frame_field of
        None \<Rightarrow> None
      | Some frame_count \<Rightarrow>
          if frame_count \<le> 0 then None
          else (case ref_field of
                  None \<Rightarrow> None
                | Some pages \<Rightarrow> if length pages = 0 then None else Some (pages, frame_count)))"

text \<open>
  The button handlers return early when \<^verbatim>\<open>parse_input\<close> fails (\<open>None\<close>: nothing is
  simulated or displayed); otherwise they display what the simulator returned.
\<close>

definition run_with :: "(page list \<Rightarrow> int \<Rightarrow> error + result) \<Rightarrow> int option \<Rightarrow> page list option
    \<Rightarrow> (error + result) option" where
  "run_with simulator frame_field ref_field =
     (case parse_input frame_field ref_field of
        None \<Rightarrow> None
      | Some (pages, frame_count) \<Rightarrow> Some (simulator pages frame_count))"

definition run_fifo :: "int option \<Rightarrow> page list option \<Rightarrow> (error + result) option" where
  "run_fifo = run_with fifo_page_replacement"

definition run_lru :: "int option \<Rightarrow> page list option \<Rightarrow> (error + result) option" where
  "run_lru = run_with lru_page_replacement"

definition run_optimal :: "int option \<Rightarrow> page list option \<Rightarrow> (error + result) option" where
  "run_optimal = run_with optimal_page_replacement"

definition run_lfu :: "int option \<Rightarrow> page list option \<Rightarrow> (error + result) option" where
  "run_lfu = run_with lfu_page_replacement"

text \<open>\<^verbatim>\<open>lambda x: x[1]\<close>\<close>

definition faults_key :: "string \<times> nat \<Rightarrow> error + nat" where
  "faults_key x = Inr (snd x)"

text \<open>
  \<^verbatim>\<open>compare_all\<close> of \<^verbatim>\<open>secondapp.py\<close>: the value is the text shown as
  \<^verbatim>\<open>Best Algorithm (Minimum Faults): {best}\<close>, with the four fault counts of the
  comparison table (the hit ratios, floating point numbers, are left out).
\<close>

definition compare_all :: "int option \<Rightarrow> page list option \<Rightarrow> (error + string \<times> nat list) option" where
  "compare_all frame_field ref_field =
     (case parse_input frame_field ref_field of
        None \<Rightarrow> None
      | Some (pages, frame_count) \<Rightarrow> Some
          (case fifo_page_replacement pages frame_count of
             Inl e \<Rightarrow> Inl e
           | Inr (fifo_steps, fifo_faults, fifo_hits, fifo_log) \<Rightarrow>
          (case lru_page_replacement pages frame_count of
             Inl e \<Rightarrow> Inl e
           | Inr (lru_steps, lru_faults, lru_hits, lru_log) \<Rightarrow>
          (case optimal_page_replacement pages frame_count of
             Inl e \<Rightarrow> Inl e
           | Inr (opt_steps, opt_faults, opt_hits, opt_log) \<Rightarrow>
          (case lfu_page_replacement pages frame_count of
             Inl e \<Rightarrow> Inl e
           | Inr (lfu_steps, lfu_faults, lfu_hits, lfu_log) \<Rightarrow>
          (case py_min faults_key
                  [(''FIFO'', fifo_faults), (''LRU'', lru_faults),
                   (''OPTIMAL'', opt_faults), (''LFU'', lfu_faults)] of
             Inl e \<Rightarrow> Inl e
           | Inr best \<Rightarrow>
               Inr (fst best, [fifo_faults, lru_faults, opt_faults, lfu_faults])))))))"

text \<open>
  \<^verbatim>\<open>run_both\<close> of \<^verbatim>\<open>app.py\<close>. The two simulators of \<^verbatim>\<open>app.py\<close> are the loops of
  \<^verbatim>\<open>secondapp.py\<close> without the log list, with the same frames and counters, so the
  fault counts are those of the functions above. The value is the text shown after
  \<^verbatim>\<open>Better:\<close>.
\<close>

definition run_both :: "int option \<Rightarrow> page list option \<Rightarrow> (error + string) option" where
  "run_both frame_field ref_field =
     (case parse_input frame_field ref_field of
        None \<Rightarrow> None
      | Some (pages, frame_count) \<Rightarrow> Some
          (case fifo_page_replacement pages frame_count of
             Inl e \<Rightarrow> Inl e
           | Inr (fifo_steps, fifo_faults, fifo_hits, fifo_log) \<Rightarrow>
          (case lru_page_replacement pages frame_count of
             Inl e \<Rightarrow> Inl e
           | Inr (lru_steps, lru_faults, lru_hits, lru_log) \<Rightarrow>
               Inr (if fifo_faults < lru_faults then ''FIFO''
                    else if lru_faults < fifo_faults then ''LRU''
                    else ''Both Equal''))))"

section \<open>Reading a result\<close>

text \<open>The components of the tuple \<^verbatim>\<open>(steps, faults, hits, log)\<close> of a call that returned.\<close>

definition faults_of :: "error + result \<Rightarrow> nat option" where
  "faults_of r = (case r of Inl e \<Rightarrow> None | Inr (st, f, h, l) \<Rightarrow> Some f)"

definition hits_of :: "error + result \<Rightarrow> nat option" where
  "hits_of r = (case r of Inl e \<Rightarrow> None | Inr (st, f, h, l) \<Rightarrow> Some h)"

definition log_of :: "error + result \<Rightarrow> log_entry list option" where
  "log_of r = (case r of Inl e \<Rightarrow> None | Inr (st, f, h, l) \<Rightarrow> Some l)"

section \<open>Notions used in the proofs\<close>

text \<open>The frame list respects the bound and holds no page twice.\<close>

definition frames_ok :: "int \<Rightarrow> 'a sim_state_scheme \<Rightarrow> bool" where
  "frames_ok k s \<longleftrightarrow> int (length (frames s)) \<le> k \<and> distinct (frames s)"

text \<open>
  What one loop iteration of any of the four simulators does to the frames, the counters
  and the trace: a hit changes no frame; a fault brings the page in and keeps only pages
  that were resident.
\<close>

definition lazy_step :: "int \<Rightarrow> page \<Rightarrow> 'a sim_state_scheme \<Rightarrow> 'a sim_state_scheme \<Rightarrow> bool" where
  "lazy_step k p s s' \<longleftrightarrow>
     frames_ok k s' \<and>
     (if p \<in> set (frames s)
      then frames s' = frames s \<and> faults s' = faults s \<and> hits s' = Suc (hits s) \<and>
           steps s' = steps s @ [(p, frames s', HIT)]
      else p \<in> set (frames s') \<and> set (frames s') \<subseteq> insert p (set (frames s)) \<and>
           faults s' = Suc (faults s) \<and> hits s' = hits s \<and>
           steps s' = steps s @ [(p, frames s', FAULT)])"

inductive lazy_run :: "int \<Rightarrow> 'a sim_state_scheme \<Rightarrow> page list \<Rightarrow> 'a sim_state_scheme \<Rightarrow> bool"
  for k :: int where
  lazy_run_Nil: "lazy_run k s [] s"
| lazy_run_Cons: "lazy_step k p s s1 \<Longrightarrow> lazy_run k s1 ps s' \<Longrightarrow> lazy_run k s (p # ps) s'"

definition snaps_ok :: "int \<Rightarrow> step_record list \<Rightarrow> bool" where
  "snaps_ok k st \<longleftrightarrow> (\<forall>(p, fr, x) \<in> set st. int (length fr) \<le> k \<and> distinct fr)"

definition fifo_inv :: "int \<Rightarrow> fifo_state \<Rightarrow> bool" where
  "fifo_inv k s \<longleftrightarrow> frames_ok k s \<and> 0 \<le> queue_index s \<and> queue_index s < k"

definition lru_inv :: "int \<Rightarrow> lru_state \<Rightarrow> bool" where
  "lru_inv k s \<longleftrightarrow> frames_ok k s \<and> set (frames s) \<subseteq> dom (recent s)"

definition lfu_inv :: "int \<Rightarrow> lfu_state \<Rightarrow> bool" where
  "lfu_inv k s \<longleftrightarrow>
     frames_ok k s \<and> set (frames s) \<subseteq> dom (freq s) \<and> set (frames s) \<subseteq> dom (time s)"

text \<open>
  Demand paging in general, on the set of resident pages: \<open>sched k S ps n\<close> says that
  the accesses \<open>ps\<close> can be served from the resident set \<open>S\<close> with \<open>n\<close> faults, when
  at most \<open>k\<close> pages are resident, a page is brought in only when it is accessed, and any
  pages may be dropped at a fault.
\<close>

inductive sched :: "nat \<Rightarrow> page set \<Rightarrow> page list \<Rightarrow> nat \<Rightarrow> bool" for k :: nat where
  sched_Nil: "sched k S [] 0"
| sched_Hit: "p \<in> S \<Longrightarrow> sched k S ps n \<Longrightarrow> sched k S (p # ps) n"
| sched_Fault: "p \<notin> S \<Longrightarrow> p \<in> S' \<Longrightarrow> S' \<subseteq> insert p S \<Longrightarrow> finite S' \<Longrightarrow> card S' \<le> k \<Longrightarrow>
     sched k S' ps n \<Longrightarrow> sched k S (p # ps) (Suc n)"

text \<open>The state of LFU with two frames after the accesses 1, 2, 2.\<close>

definition lfu_example_state :: lfu_state where
  "lfu_example_state =
     \<lparr>frames = [1, 2], faults = 2, hits = 1,
      steps = [(1, [1], FAULT), (2, [1, 2], FAULT), (2, [1, 2], HIT)],
      log = [LogLoaded 1 1, LogLoaded 2 2, LogHit 3 2],
      freq = [1 \<mapsto> 1, 2 \<mapsto> 2], time = [1 \<mapsto> 0, 2 \<mapsto> 2]\<rparr>"

section \<open>Properties of the primitives\<close>

subsection \<open>List primitives\<close>

lemma index_of_None: "index_of x xs = None \<longleftrightarrow> x \<notin> set xs"
  by (induction xs) auto

lemma index_of_Some:
  "index_of x xs = Some i \<longleftrightarrow> i < length xs \<and> xs ! i = x \<and> x \<notin> set (take i xs)"
proof (induction xs arbitrary: i)
  case Nil
  then show ?case by simp
next
  case (Cons y ys)
  show ?case
  proof (cases "x = y")
    case True
    then show ?thesis by (cases i) auto
  next
    case False
    then show ?thesis using Cons.IH by (cases i) auto
  qed
qed

lemma index_of_mem: "x \<in> set xs \<Longrightarrow> \<exists>i. index_of x xs = Some i"
  using index_of_None [of x xs] by (cases "index_of x xs") auto

lemma distinct_update_new: "distinct xs \<Longrightarrow> p \<notin> set xs \<Longrightarrow> distinct (xs[j := p])"
proof (induction xs arbitrary: j)
  case Nil
  then show ?case by simp
next
  case (Cons x xs)
  then show ?case
    by (cases j) (auto dest: set_update_subset_insert [THEN subsetD])
qed

lemma set_update_fresh:
  "j < length xs \<Longrightarrow> p \<in> set (xs[j := p]) \<and> set (xs[j := p]) \<subseteq> insert p (set xs)"
  by (simp add: set_update_memI set_update_subset_insert)

subsection \<open>The minimum scan\<close>

lemma min_scan_result:
  assumes "\<forall>x \<in> set xs. key x = Inr (kf x)"
  shows "\<exists>v. min_scan key best (kf best) xs = Inr v \<and>
           ((v = best \<and> (\<forall>x \<in> set xs. kf best \<le> kf x)) \<or>
            (\<exists>i < length xs. xs ! i = v \<and> kf v < kf best \<and>
               (\<forall>j < i. kf v < kf (xs ! j)) \<and> (\<forall>x \<in> set xs. kf v \<le> kf x)))"
  using assms
proof (induction xs arbitrary: best)
  case Nil
  then show ?case by simp
next
  case (Cons x xs)
  have kx: "key x = Inr (kf x)" and rest: "\<forall>y \<in> set xs. key y = Inr (kf y)"
    using Cons.prems by simp_all
  show ?case
  proof (cases "kf x < kf best")
    case True
    from Cons.IH [OF rest, of x] obtain v where
      v: "min_scan key x (kf x) xs = Inr v" and
      alt: "(v = x \<and> (\<forall>y \<in> set xs. kf x \<le> kf y)) \<or>
            (\<exists>i < length xs. xs ! i = v \<and> kf v < kf x \<and>
               (\<forall>j < i. kf v < kf (xs ! j)) \<and> (\<forall>y \<in> set xs. kf v \<le> kf y))"
      by blast
    have run: "min_scan key best (kf best) (x # xs) = Inr v"
      using kx True v by simp
    from alt show ?thesis
    proof
      assume a: "v = x \<and> (\<forall>y \<in> set xs. kf x \<le> kf y)"
      then have "(x # xs) ! 0 = v \<and> kf v < kf best \<and>
          (\<forall>j < 0. kf v < kf ((x # xs) ! j)) \<and> (\<forall>y \<in> set (x # xs). kf v \<le> kf y)"
        using True by simp
      then show ?thesis using run by blast
    next
      assume "\<exists>i < length xs. xs ! i = v \<and> kf v < kf x \<and>
               (\<forall>j < i. kf v < kf (xs ! j)) \<and> (\<forall>y \<in> set xs. kf v \<le> kf y)"
      then obtain i where i: "i < length xs" "xs ! i = v" "kf v < kf x"
        "\<forall>j < i. kf v < kf (xs ! j)" "\<forall>y \<in> set xs. kf v \<le> kf y"
        by blast
      have "\<forall>j < Suc i. kf v < kf ((x # xs) ! j)"
        using i(3,4) by (auto simp: less_Suc_eq_0_disj)
      moreover have "Suc i < length (x # xs)" "(x # xs) ! Suc i = v" "kf v < kf best"
        "\<forall>y \<in> set (x # xs). kf v \<le> kf y"
        using i True by auto
      ultimately show ?thesis using run by blast
    qed
  next
    case False
    from Cons.IH [OF rest, of best] obtain v where
      v: "min_scan key best (kf best) xs = Inr v" and
      alt: "(v = best \<and> (\<forall>y \<in> set xs. kf best \<le> kf y)) \<or>
            (\<exists>i < length xs. xs ! i = v \<and> kf v < kf best \<and>
               (\<forall>j < i. kf v < kf (xs ! j)) \<and> (\<forall>y \<in> set xs. kf v \<le> kf y))"
      by blast
    have run: "min_scan key best (kf best) (x # xs) = Inr v"
      using kx False v by simp
    from alt show ?thesis
    proof
      assume "v = best \<and> (\<forall>y \<in> set xs. kf best \<le> kf y)"
      then show ?thesis using run False by auto
    next
      assume "\<exists>i < length xs. xs ! i = v \<and> kf v < kf best \<and>
               (\<forall>j < i. kf v < kf (xs ! j)) \<and> (\<forall>y \<in> set xs. kf v \<le> kf y)"
      then obtain i where i: "i < length xs" "xs ! i = v" "kf v < kf best"
        "\<forall>j < i. kf v < kf (xs ! j)" "\<forall>y \<in> set xs. kf v \<le> kf y"
        by blast
      have "\<forall>j < Suc i. kf v < kf ((x # xs) ! j)"
        using i(3,4) False by (auto simp: less_Suc_eq_0_disj)
      moreover have "Suc i < length (x # xs)" "(x # xs) ! Suc i = v" "kf v < kf best"
        "\<forall>y \<in> set (x # xs). kf v \<le> kf y"
        using i False by auto
      ultimately show ?thesis using run by blast
    qed
  qed
qed

text \<open>The minimum of a non-empty list whose keys all exist: the first item of least key.\<close>

lemma py_min_result:
  assumes "xs \<noteq> []" "\<forall>x \<in> set xs. key x = Inr (kf x)"
  shows "\<exists>v i. py_min key xs = Inr v \<and> i < length xs \<and> xs ! i = v \<and>
           (\<forall>j < i. kf v < kf (xs ! j)) \<and> (\<forall>x \<in> set xs. kf v \<le> kf x)"
proof -
  from assms(1) obtain y ys where xs: "xs = y # ys" by (cases xs) auto
  have ky: "key y = Inr (kf y)" and rest: "\<forall>x \<in> set ys. key x = Inr (kf x)"
    using assms(2) xs by simp_all
  from min_scan_result [OF rest, of y] obtain v where
    v: "min_scan key y (kf y) ys = Inr v" and
    alt: "(v = y \<and> (\<forall>x \<in> set ys. kf y \<le> kf x)) \<or>
          (\<exists>i < length ys. ys ! i = v \<and> kf v < kf y \<and>
             (\<forall>j < i. kf v < kf (ys ! j)) \<and> (\<forall>x \<in> set ys. kf v \<le> kf x))"
    by blast
  have run: "py_min key xs = Inr v"
    using xs ky v by (simp add: py_min_def)
  from alt show ?thesis
  proof
    assume "v = y \<and> (\<forall>x \<in> set ys. kf y \<le> kf x)"
    then have "0 < length xs \<and> xs ! 0 = v \<and> (\<forall>j < 0. kf v < kf (xs ! j)) \<and>
        (\<forall>x \<in> set xs. kf v \<le> kf x)"
      using xs by simp
    then show ?thesis using run by blast
  next
    assume "\<exists>i < length ys. ys ! i = v \<and> kf v < kf y \<and>
             (\<forall>j < i. kf v < kf (ys ! j)) \<and> (\<forall>x \<in> set ys. kf v \<le> kf x)"
    then obtain i where i: "i < length ys" "ys ! i = v" "kf v < kf y"
      "\<forall>j < i. kf v < kf (ys ! j)" "\<forall>x \<in> set ys. kf v \<le> kf x"
      by blast
    have "\<forall>j < Suc i. kf v < kf (xs ! j)"
      using i(3,4) xs by (auto simp: less_Suc_eq_0_disj)
    moreover have "Suc i < length xs" "xs ! Suc i = v" "\<forall>x \<in> set xs. kf v \<le> kf x"
      using i xs by auto
    ultimately show ?thesis using run by blast
  qed
qed

text \<open>The position found by \<open>index_of\<close> for the first item of least key.\<close>

lemma first_least_index:
  fixes kf :: "'a \<Rightarrow> 'k::linorder"
  assumes "i < length xs" "\<forall>j < i. kf (xs ! i) < kf (xs ! j)"
  shows "index_of (xs ! i) xs = Some i"
proof -
  have "xs ! i \<notin> set (take i xs)"
  proof
    assume "xs ! i \<in> set (take i xs)"
    then obtain j where "j < i" "xs ! j = xs ! i"
      using assms(1) by (auto simp: in_set_conv_nth)
    with assms(2) show False by (metis less_irrefl)
  qed
  then show ?thesis using assms(1) by (simp add: index_of_Some)
qed

section \<open>One iteration of each loop\<close>

lemma fifo_step_ok:
  assumes "0 < k" "fifo_inv k s"
  shows "\<exists>s'. fifo_step k n p s = Inr s' \<and> fifo_inv k s' \<and> lazy_step k p s s'"
proof (cases "p \<in> set (frames s)")
  case True
  then show ?thesis using assms
    by (simp add: fifo_step_def fifo_inv_def lazy_step_def frames_ok_def)
next
  case False
  show ?thesis
  proof (cases "int (length (frames s)) < k")
    case True
    then show ?thesis using assms False
      by (simp add: fifo_step_def fifo_inv_def lazy_step_def frames_ok_def)
  next
    case full: False
    with assms have len: "int (length (frames s)) = k"
      by (simp add: fifo_inv_def frames_ok_def)
    with assms have idx: "py_index (frames s) (queue_index s) = Some (nat (queue_index s))"
      by (simp add: py_index_def fifo_inv_def Let_def)
    have lt: "nat (queue_index s) < length (frames s)"
      using assms len by (auto simp: fifo_inv_def)
    have "distinct ((frames s)[nat (queue_index s) := p])"
      using assms False by (simp add: distinct_update_new fifo_inv_def frames_ok_def)
    then show ?thesis using assms False full idx len set_update_fresh [OF lt, of p]
      by (simp add: fifo_step_def fifo_inv_def lazy_step_def frames_ok_def)
  qed
qed

lemma lru_step_ok:
  assumes "0 < k" "lru_inv k s"
  shows "\<exists>s'. lru_step k i p s = Inr s' \<and> lru_inv k s' \<and> lazy_step k p s s'"
proof (cases "p \<in> set (frames s)")
  case True
  then show ?thesis using assms
    by (auto simp add: lru_step_def lru_inv_def lazy_step_def frames_ok_def)
next
  case False
  show ?thesis
  proof (cases "int (length (frames s)) < k")
    case True
    then show ?thesis using assms False
      by (auto simp add: lru_step_def lru_inv_def lazy_step_def frames_ok_def)
  next
    case full: False
    with assms have ne: "frames s \<noteq> []"
      by (auto simp add: lru_inv_def frames_ok_def)
    have keys: "\<forall>x \<in> set (frames s).
        recent_key (recent s) x = Inr (case recent s x of None \<Rightarrow> - 1 | Some v \<Rightarrow> v)"
      by (simp add: recent_key_def)
    from py_min_result [OF ne keys] obtain v j where
      v: "py_min (recent_key (recent s)) (frames s) = Inr v" and
      j: "j < length (frames s)" "frames s ! j = v" and
      first: "\<forall>l < j. (case recent s v of None \<Rightarrow> - 1 | Some v \<Rightarrow> v)
                 < (case recent s (frames s ! l) of None \<Rightarrow> - 1 | Some v \<Rightarrow> v)"
      by blast
    have idx: "index_of v (frames s) = Some j"
      using first_least_index [of j "frames s"
          "\<lambda>x. case recent s x of None \<Rightarrow> - 1 | Some v \<Rightarrow> v"] j first
      by simp
    have d: "distinct ((frames s)[j := p])"
      using assms False by (simp add: distinct_update_new lru_inv_def frames_ok_def)
    have sub: "set ((frames s)[j := p]) \<subseteq> insert p (set (frames s))"
      by (rule set_update_subset_insert)
    have "set ((frames s)[j := p]) \<subseteq> dom ((recent s)(p \<mapsto> int i))"
      using sub assms(2) by (auto simp: lru_inv_def)
    then show ?thesis using assms False full v idx d set_update_fresh [OF j(1), of p]
      by (simp add: lru_step_def lru_inv_def lazy_step_def frames_ok_def)
  qed
qed

lemma lfu_step_ok:
  assumes "0 < k" "lfu_inv k s"
  shows "\<exists>s'. lfu_step k i p s = Inr s' \<and> lfu_inv k s' \<and> lazy_step k p s s'"
proof (cases "p \<in> set (frames s)")
  case True
  with assms obtain c where "freq s p = Some c"
    by (auto simp: lfu_inv_def)
  then show ?thesis using assms True
    by (auto simp add: lfu_step_def lfu_inv_def lazy_step_def frames_ok_def)
next
  case False
  show ?thesis
  proof (cases "int (length (frames s)) < k")
    case True
    then show ?thesis using assms False
      by (auto simp add: lfu_step_def lfu_inv_def lazy_step_def frames_ok_def)
  next
    case full: False
    with assms have ne: "frames s \<noteq> []"
      by (auto simp add: lfu_inv_def frames_ok_def)
    have keys: "\<forall>x \<in> set (frames s).
        lfu_key (freq s) (time s) x = Inr (the (freq s x), the (time s x))"
      using assms(2) by (auto simp: lfu_key_def lfu_inv_def split: option.splits)
    from py_min_result [OF ne keys] obtain v j where
      v: "py_min (lfu_key (freq s) (time s)) (frames s) = Inr v" and
      j: "j < length (frames s)" "frames s ! j = v" and
      first: "\<forall>l < j. (the (freq s v), the (time s v))
                 < (the (freq s (frames s ! l)), the (time s (frames s ! l)))"
      by blast
    have idx: "index_of v (frames s) = Some j"
      using first_least_index [of j "frames s" "\<lambda>x. (the (freq s x), the (time s x))"] j first
      by simp
    have vin: "v \<in> set (frames s)" using j by auto
    then have dom: "freq s v \<noteq> None" "time s v \<noteq> None"
      using assms(2) by (auto simp: lfu_inv_def)
    have d: "distinct ((frames s)[j := p])"
      using assms False by (simp add: distinct_update_new lfu_inv_def frames_ok_def)
    have sub: "set ((frames s)[j := p]) \<subseteq> insert p (set (frames s) - {v})"
      using j assms(2) by (auto simp: lfu_inv_def frames_ok_def set_conv_nth nth_list_update
          nth_eq_iff_index_eq)
    have "set ((frames s)[j := p]) \<subseteq> dom (((freq s)(v := None))(p \<mapsto> 1))"
      "set ((frames s)[j := p]) \<subseteq> dom (((time s)(v := None))(p \<mapsto> int i))"
      using sub assms(2) by (auto simp: lfu_inv_def)
    then show ?thesis using assms False full v idx d dom set_update_fresh [OF j(1), of p]
      by (simp add: lfu_step_def lfu_inv_def lazy_step_def frames_ok_def)
  qed
qed

subsection \<open>The scan of OPTIMAL\<close>

lemma dist_gt_irrefl: "\<not> dist_gt a a"
  by (cases a) simp_all

lemma dist_gt_trans: "dist_gt a b \<Longrightarrow> dist_gt b c \<Longrightarrow> dist_gt a c"
  by (cases a; cases b; cases c) simp_all

lemma dist_not_gt_trans: "\<not> dist_gt a b \<Longrightarrow> dist_gt c b \<Longrightarrow> dist_gt c a"
  by (cases a; cases b; cases c) auto

lemma next_use_gt_start: "dist_gt (next_use future f) (Fin (- 1))"
  by (simp add: next_use_def split: option.splits)

lemma opt_scan_result:
  "\<exists>d' r'. opt_scan future (d, r) fs = (d', r') \<and>
     ((d' = d \<and> r' = r \<and> (\<forall>f \<in> set fs. \<not> dist_gt (next_use future f) d)) \<or>
      (\<exists>i < length fs. r' = Some (fs ! i) \<and> d' = next_use future (fs ! i) \<and> dist_gt d' d \<and>
         (\<forall>j < i. dist_gt d' (next_use future (fs ! j))) \<and>
         (\<forall>f \<in> set fs. \<not> dist_gt (next_use future f) d')))"
proof (induction fs arbitrary: d r)
  case Nil
  then show ?case by simp
next
  case (Cons x xs)
  let ?nu = "next_use future"
  show ?case
  proof (cases "dist_gt (?nu x) d")
    case True
    from Cons.IH [of "?nu x" "Some x"] obtain d' r' where
      run: "opt_scan future (?nu x, Some x) xs = (d', r')" and
      alt: "(d' = ?nu x \<and> r' = Some x \<and> (\<forall>f \<in> set xs. \<not> dist_gt (?nu f) (?nu x))) \<or>
            (\<exists>i < length xs. r' = Some (xs ! i) \<and> d' = ?nu (xs ! i) \<and> dist_gt d' (?nu x) \<and>
               (\<forall>j < i. dist_gt d' (?nu (xs ! j))) \<and>
               (\<forall>f \<in> set xs. \<not> dist_gt (?nu f) d'))"
      by blast
    have run': "opt_scan future (d, r) (x # xs) = (d', r')"
      using True run by simp
    from alt show ?thesis
    proof
      assume a: "d' = ?nu x \<and> r' = Some x \<and> (\<forall>f \<in> set xs. \<not> dist_gt (?nu f) (?nu x))"
      then have "0 < length (x # xs) \<and> r' = Some ((x # xs) ! 0) \<and> d' = ?nu ((x # xs) ! 0) \<and>
          dist_gt d' d \<and> (\<forall>j < 0. dist_gt d' (?nu ((x # xs) ! j))) \<and>
          (\<forall>f \<in> set (x # xs). \<not> dist_gt (?nu f) d')"
        using True by (simp add: dist_gt_irrefl)
      then show ?thesis using run' by blast
    next
      assume "\<exists>i < length xs. r' = Some (xs ! i) \<and> d' = ?nu (xs ! i) \<and> dist_gt d' (?nu x) \<and>
               (\<forall>j < i. dist_gt d' (?nu (xs ! j))) \<and>
               (\<forall>f \<in> set xs. \<not> dist_gt (?nu f) d')"
      then obtain i where i: "i < length xs" "r' = Some (xs ! i)" "d' = ?nu (xs ! i)"
        "dist_gt d' (?nu x)" "\<forall>j < i. dist_gt d' (?nu (xs ! j))"
        "\<forall>f \<in> set xs. \<not> dist_gt (?nu f) d'"
        by blast
      have "\<forall>j < Suc i. dist_gt d' (?nu ((x # xs) ! j))"
        using i(4,5) by (auto simp: less_Suc_eq_0_disj)
      moreover have "dist_gt d' d"
        using i(4) True by (rule dist_gt_trans)
      moreover have "\<not> dist_gt (?nu x) d'"
        using i(4) dist_gt_trans dist_gt_irrefl by blast
      then have "\<forall>f \<in> set (x # xs). \<not> dist_gt (?nu f) d'"
        using i(6) by simp
      moreover have "Suc i < length (x # xs)" "r' = Some ((x # xs) ! Suc i)"
        "d' = ?nu ((x # xs) ! Suc i)"
        using i by auto
      ultimately show ?thesis using run' by blast
    qed
  next
    case False
    from Cons.IH [of d r] obtain d' r' where
      run: "opt_scan future (d, r) xs = (d', r')" and
      alt: "(d' = d \<and> r' = r \<and> (\<forall>f \<in> set xs. \<not> dist_gt (?nu f) d)) \<or>
            (\<exists>i < length xs. r' = Some (xs ! i) \<and> d' = ?nu (xs ! i) \<and> dist_gt d' d \<and>
               (\<forall>j < i. dist_gt d' (?nu (xs ! j))) \<and>
               (\<forall>f \<in> set xs. \<not> dist_gt (?nu f) d'))"
      by blast
    have run': "opt_scan future (d, r) (x # xs) = (d', r')"
      using False run by simp
    from alt show ?thesis
    proof
      assume "d' = d \<and> r' = r \<and> (\<forall>f \<in> set xs. \<not> dist_gt (?nu f) d)"
      then show ?thesis using run' False by auto
    next
      assume "\<exists>i < length xs. r' = Some (xs ! i) \<and> d' = ?nu (xs ! i) \<and> dist_gt d' d \<and>
               (\<forall>j < i. dist_gt d' (?nu (xs ! j))) \<and>
               (\<forall>f \<in> set xs. \<not> dist_gt (?nu f) d')"
      then obtain i where i: "i < length xs" "r' = Some (xs ! i)" "d' = ?nu (xs ! i)"
        "dist_gt d' d" "\<forall>j < i. dist_gt d' (?nu (xs ! j))"
        "\<forall>f \<in> set xs. \<not> dist_gt (?nu f) d'"
        by blast
      have x: "dist_gt d' (?nu x)"
        using False i(4) by (rule dist_not_gt_trans)
      then have "\<forall>j < Suc i. dist_gt d' (?nu ((x # xs) ! j))"
        using i(5) by (auto simp: less_Suc_eq_0_disj)
      moreover have "\<not> dist_gt (?nu x) d'"
        using x dist_gt_trans dist_gt_irrefl by blast
      then have "\<forall>f \<in> set (x # xs). \<not> dist_gt (?nu f) d'"
        using i(6) by simp
      moreover have "Suc i < length (x # xs)" "r' = Some ((x # xs) ! Suc i)"
        "d' = ?nu ((x # xs) ! Suc i)"
        using i by auto
      ultimately show ?thesis using run' i(4) by blast
    qed
  qed
qed

text \<open>The victim of OPTIMAL: the first frame of greatest distance.\<close>

lemma opt_victim_result:
  assumes "fs \<noteq> []"
  shows "\<exists>i < length fs. opt_victim future fs = Some (fs ! i) \<and>
           index_of (fs ! i) fs = Some i \<and>
           (\<forall>j < i. dist_gt (next_use future (fs ! i)) (next_use future (fs ! j))) \<and>
           (\<forall>f \<in> set fs. \<not> dist_gt (next_use future f) (next_use future (fs ! i)))"
proof -
  from opt_scan_result [of future "Fin (- 1)" None fs] obtain d' r' where
    run: "opt_scan future (Fin (- 1), None) fs = (d', r')" and
    alt: "(d' = Fin (- 1) \<and> r' = None \<and>
            (\<forall>f \<in> set fs. \<not> dist_gt (next_use future f) (Fin (- 1)))) \<or>
          (\<exists>i < length fs. r' = Some (fs ! i) \<and> d' = next_use future (fs ! i) \<and>
             dist_gt d' (Fin (- 1)) \<and>
             (\<forall>j < i. dist_gt d' (next_use future (fs ! j))) \<and>
             (\<forall>f \<in> set fs. \<not> dist_gt (next_use future f) d'))"
    by blast
  from assms obtain f where "f \<in> set fs" by (cases fs) auto
  then have "\<not> (\<forall>f \<in> set fs. \<not> dist_gt (next_use future f) (Fin (- 1)))"
    using next_use_gt_start by blast
  with alt obtain i where i: "i < length fs" "r' = Some (fs ! i)"
    "d' = next_use future (fs ! i)"
    "\<forall>j < i. dist_gt d' (next_use future (fs ! j))"
    "\<forall>f \<in> set fs. \<not> dist_gt (next_use future f) d'"
    by blast
  have "fs ! i \<notin> set (take i fs)"
  proof
    assume "fs ! i \<in> set (take i fs)"
    then obtain j where "j < i" "fs ! j = fs ! i"
      using i(1) by (auto simp: in_set_conv_nth)
    with i(3,4) show False by (metis dist_gt_irrefl)
  qed
  then have "index_of (fs ! i) fs = Some i"
    using i(1) by (simp add: index_of_Some)
  then show ?thesis using run i by (auto simp: opt_victim_def)
qed

lemma opt_step_ok:
  assumes "0 < k" "frames_ok k s"
  shows "\<exists>s'. opt_step k pages i p s = Inr s' \<and> lazy_step k p s s'"
proof (cases "p \<in> set (frames s)")
  case True
  then show ?thesis using assms
    by (simp add: opt_step_def lazy_step_def frames_ok_def)
next
  case False
  show ?thesis
  proof (cases "int (length (frames s)) < k")
    case True
    then show ?thesis using assms False
      by (simp add: opt_step_def lazy_step_def frames_ok_def)
  next
    case full: False
    with assms have ne: "frames s \<noteq> []"
      by (auto simp add: frames_ok_def)
    from opt_victim_result [OF ne, of "drop (i + 1) pages"] obtain j where
      j: "j < length (frames s)" and
      v: "opt_victim (drop (i + 1) pages) (frames s) = Some (frames s ! j)" and
      idx: "index_of (frames s ! j) (frames s) = Some j"
      by blast
    have d: "distinct ((frames s)[j := p])"
      using assms False by (simp add: distinct_update_new frames_ok_def)
    show ?thesis using assms False full v idx d set_update_fresh [OF j, of p]
      by (simp add: opt_step_def lazy_step_def frames_ok_def)
  qed
qed

section \<open>The loops\<close>

lemma fifo_loop_run:
  assumes "0 < k" "fifo_inv k s"
  shows "\<exists>s'. fifo_loop k n s ps = Inr s' \<and> fifo_inv k s' \<and> lazy_run k s ps s'"
  using assms(2)
proof (induction ps arbitrary: n s)
  case Nil
  then show ?case by (auto intro: lazy_run_Nil)
next
  case (Cons p ps)
  from fifo_step_ok [OF assms(1) Cons.prems, of n p] obtain s1 where
    s1: "fifo_step k n p s = Inr s1" "fifo_inv k s1" "lazy_step k p s s1"
    by blast
  from Cons.IH [OF s1(2), of "Suc n"] obtain s' where
    "fifo_loop k (Suc n) s1 ps = Inr s'" "fifo_inv k s'" "lazy_run k s1 ps s'"
    by blast
  then show ?case using s1 by (auto intro: lazy_run_Cons)
qed

lemma lru_loop_run:
  assumes "0 < k" "lru_inv k s"
  shows "\<exists>s'. lru_loop k n s ps = Inr s' \<and> lru_inv k s' \<and> lazy_run k s ps s'"
  using assms(2)
proof (induction ps arbitrary: n s)
  case Nil
  then show ?case by (auto intro: lazy_run_Nil)
next
  case (Cons p ps)
  from lru_step_ok [OF assms(1) Cons.prems, of n p] obtain s1 where
    s1: "lru_step k n p s = Inr s1" "lru_inv k s1" "lazy_step k p s s1"
    by blast
  from Cons.IH [OF s1(2), of "Suc n"] obtain s' where
    "lru_loop k (Suc n) s1 ps = Inr s'" "lru_inv k s'" "lazy_run k s1 ps s'"
    by blast
  then show ?case using s1 by (auto intro: lazy_run_Cons)
qed

lemma lfu_loop_run:
  assumes "0 < k" "lfu_inv k s"
  shows "\<exists>s'. lfu_loop k n s ps = Inr s' \<and> lfu_inv k s' \<and> lazy_run k s ps s'"
  using assms(2)
proof (induction ps arbitrary: n s)
  case Nil
  then show ?case by (auto intro: lazy_run_Nil)
next
  case (Cons p ps)
  from lfu_step_ok [OF assms(1) Cons.prems, of n p] obtain s1 where
    s1: "lfu_step k n p s = Inr s1" "lfu_inv k s1" "lazy_step k p s s1"
    by blast
  from Cons.IH [OF s1(2), of "Suc n"] obtain s' where
    "lfu_loop k (Suc n) s1 ps = Inr s'" "lfu_inv k s'" "lazy_run k s1 ps s'"
    by blast
  then show ?case using s1 by (auto intro: lazy_run_Cons)
qed

lemma opt_loop_run:
  assumes "0 < k" "frames_ok k s"
  shows "\<exists>s'. opt_loop k pages n s ps = Inr s' \<and> frames_ok k s' \<and> lazy_run k s ps s'"
  using assms(2)
proof (induction ps arbitrary: n s)
  case Nil
  then show ?case by (auto intro: lazy_run_Nil)
next
  case (Cons p ps)
  from opt_step_ok [OF assms(1) Cons.prems, of pages n p] obtain s1 where
    s1: "opt_step k pages n p s = Inr s1" "lazy_step k p s s1"
    by blast
  then have ok: "frames_ok k s1" by (simp add: lazy_step_def)
  from Cons.IH [OF ok, of "Suc n"] obtain s' where
    "opt_loop k pages (Suc n) s1 ps = Inr s'" "frames_ok k s'" "lazy_run k s1 ps s'"
    by blast
  then show ?case using s1 by (auto intro: lazy_run_Cons)
qed

lemma init_inv:
  "fifo_inv k fifo_init \<longleftrightarrow> 0 < k" "0 \<le> k \<Longrightarrow> lru_inv k lru_init"
  "0 \<le> k \<Longrightarrow> lfu_inv k lfu_init" "0 \<le> k \<Longrightarrow> frames_ok k opt_init"
  by (auto simp: fifo_inv_def lru_inv_def lfu_inv_def frames_ok_def fifo_init_def lru_init_def
      lfu_init_def opt_init_def)

subsection \<open>What a run of lazy steps gives\<close>

lemma lazy_step_status:
  "lazy_step k p s s' \<Longrightarrow>
     steps s' = steps s @ [(p, frames s', if p \<in> set (frames s) then HIT else FAULT)] \<and>
     hits s' + faults s' = Suc (hits s + faults s) \<and> frames_ok k s'"
  by (auto simp: lazy_step_def split: if_splits)

lemma lazy_run_trace:
  "lazy_run k s ps s' \<Longrightarrow>
     map fst (steps s') = map fst (steps s) @ ps \<and>
     hits s' + faults s' = hits s + faults s + length ps"
proof (induction rule: lazy_run.induct)
  case (lazy_run_Nil s)
  then show ?case by simp
next
  case (lazy_run_Cons p s s1 ps s')
  then show ?case using lazy_step_status [of k p s s1] by auto
qed

lemma lazy_run_snaps:
  "lazy_run k s ps s' \<Longrightarrow> snaps_ok k (steps s) \<Longrightarrow> snaps_ok k (steps s')"
proof (induction rule: lazy_run.induct)
  case (lazy_run_Nil s)
  then show ?case by simp
next
  case (lazy_run_Cons p s s1 ps s')
  have "snaps_ok k (steps s1)"
    using lazy_step_status [OF lazy_run_Cons.hyps(1)] lazy_run_Cons.prems
    by (auto simp: snaps_ok_def frames_ok_def)
  then show ?case by (rule lazy_run_Cons.IH)
qed

lemma frames_ok_card: "0 < k \<Longrightarrow> frames_ok k s \<Longrightarrow> card (set (frames s)) \<le> nat k"
  using card_length [of "frames s"] by (auto simp: frames_ok_def)

lemma lazy_run_sched:
  assumes "0 < k"
  shows "lazy_run k s ps s' \<Longrightarrow>
     \<exists>n. faults s' = faults s + n \<and> sched (nat k) (set (frames s)) ps n"
proof (induction rule: lazy_run.induct)
  case (lazy_run_Nil s)
  then show ?case by (auto intro: sched_Nil)
next
  case (lazy_run_Cons p s s1 ps s')
  then obtain n where n: "faults s' = faults s1 + n" "sched (nat k) (set (frames s1)) ps n"
    by blast
  show ?case
  proof (cases "p \<in> set (frames s)")
    case True
    then have "frames s1 = frames s" "faults s1 = faults s"
      using lazy_run_Cons.hyps(1) by (simp_all add: lazy_step_def)
    then show ?thesis using n True by (auto intro: sched_Hit)
  next
    case False
    then have f: "p \<in> set (frames s1)" "set (frames s1) \<subseteq> insert p (set (frames s))"
      "faults s1 = Suc (faults s)" "frames_ok k s1"
      using lazy_run_Cons.hyps(1) by (simp_all add: lazy_step_def)
    have "sched (nat k) (set (frames s)) (p # ps) (Suc n)"
      using False f(1,2) _ frames_ok_card [OF assms f(4)] n(2)
      by (rule sched_Fault) simp
    then show ?thesis using n(1) f(3) by auto
  qed
qed

section \<open>The FIFO scenario\<close>

text \<open>
  C2 (as the spec states it): FIFO on \<open>[7,0,1,2,0,3,0,4]\<close> with three frames gives 6 faults
  and 2 hits, both repeated accesses to page 0 being hits. The code gives 7 faults and
  1 hit: the counts of the spec are not those of this call.
\<close>

theorem fifo_scenario_counterexample:
  "faults_of (fifo_page_replacement [7, 0, 1, 2, 0, 3, 0, 4] 3) \<noteq> Some 6 \<and>
   hits_of (fifo_page_replacement [7, 0, 1, 2, 0, 3, 0, 4] 3) \<noteq> Some 2"
  by (simp add: faults_of_def hits_of_def fifo_page_replacement_def fifo_init_def
      fifo_step_def py_index_def result_of_def)

text \<open>
  C2 (amended): FIFO on \<open>[7,0,1,2,0,3,0,4]\<close> with three frames gives exactly 7 faults and
  1 hit. The only hit is the first repeated access to page 0 (step 5); the second one
  (step 7) is a fault, because the rotating cursor replaced page 0 by page 3 at step 6.
  The snapshots and the victims are those of the cursor going through the slots 0, 1, 2, 0.
\<close>

theorem fifo_scenario:
  "fifo_page_replacement [7, 0, 1, 2, 0, 3, 0, 4] 3 =
     Inr ([(7, [7], FAULT), (0, [7, 0], FAULT), (1, [7, 0, 1], FAULT),
           (2, [2, 0, 1], FAULT), (0, [2, 0, 1], HIT), (3, [2, 3, 1], FAULT),
           (0, [2, 3, 0], FAULT), (4, [4, 3, 0], FAULT)],
          7, 1,
          [LogLoaded 1 7, LogLoaded 2 0, LogLoaded 3 1, LogReplaced 4 2 7,
           LogHit 5 0, LogReplaced 6 3 0, LogReplaced 7 0 1, LogReplaced 8 4 2])"
  by (simp add: fifo_page_replacement_def fifo_init_def fifo_step_def py_index_def
      result_of_def)

section \<open>Every run of a simulator with a positive frame count\<close>

lemma fifo_returns:
  assumes "0 < k"
  shows "\<exists>s. fifo_loop k 1 fifo_init pages = Inr s \<and> lazy_run k fifo_init pages s \<and>
           fifo_page_replacement pages k = Inr (steps s, faults s, hits s, log s)"
proof -
  have "fifo_inv k fifo_init" using assms by (simp add: init_inv)
  from fifo_loop_run [OF assms this, of 1 pages] show ?thesis
    by (auto simp: fifo_page_replacement_def result_of_def)
qed

lemma lru_returns:
  assumes "0 < k"
  shows "\<exists>s. lru_loop k 0 lru_init pages = Inr s \<and> lazy_run k lru_init pages s \<and>
           lru_page_replacement pages k = Inr (steps s, faults s, hits s, log s)"
proof -
  have "lru_inv k lru_init" using assms by (simp add: init_inv)
  from lru_loop_run [OF assms this, of 0 pages] show ?thesis
    by (auto simp: lru_page_replacement_def result_of_def)
qed

lemma opt_returns:
  assumes "0 < k"
  shows "\<exists>s. opt_loop k pages 0 opt_init pages = Inr s \<and> lazy_run k opt_init pages s \<and>
           optimal_page_replacement pages k = Inr (steps s, faults s, hits s, log s)"
proof -
  have "frames_ok k opt_init" using assms by (simp add: init_inv)
  from opt_loop_run [OF assms this, of pages 0 pages] show ?thesis
    by (auto simp: optimal_page_replacement_def result_of_def)
qed

lemma lfu_returns:
  assumes "0 < k"
  shows "\<exists>s. lfu_loop k 0 lfu_init pages = Inr s \<and> lazy_run k lfu_init pages s \<and>
           lfu_page_replacement pages k = Inr (steps s, faults s, hits s, log s)"
proof -
  have "lfu_inv k lfu_init" using assms by (simp add: init_inv)
  from lfu_loop_run [OF assms this, of 0 pages] show ?thesis
    by (auto simp: lfu_page_replacement_def result_of_def)
qed

lemma init_fields:
  "steps fifo_init = []" "hits fifo_init = 0" "faults fifo_init = 0" "frames fifo_init = []"
  "steps lru_init = []" "hits lru_init = 0" "faults lru_init = 0" "frames lru_init = []"
  "steps opt_init = []" "hits opt_init = 0" "faults opt_init = 0" "frames opt_init = []"
  "steps lfu_init = []" "hits lfu_init = 0" "faults lfu_init = 0" "frames lfu_init = []"
  by (simp_all add: fifo_init_def lru_init_def opt_init_def lfu_init_def)

lemma run_from_init_counts:
  assumes "lazy_run k s0 pages s" "steps s0 = []" "hits s0 = 0" "faults s0 = 0"
  shows "hits s + faults s = length pages \<and> map fst (steps s) = pages \<and>
         (\<forall>(p, fr, x) \<in> set (steps s). int (length fr) \<le> k \<and> distinct fr)"
proof -
  have "snaps_ok k (steps s0)" using assms(2) by (simp add: snaps_ok_def)
  from lazy_run_snaps [OF assms(1) this] lazy_run_trace [OF assms(1)] assms(2-4)
  show ?thesis by (simp add: snaps_ok_def)
qed

text \<open>
  C8: for every reference string and every positive frame count, each of the four
  simulators returns, the hit count plus the fault count is the length of the reference
  string, and the pages of the step records are the accesses, one record per access in
  input order.
\<close>

theorem hits_plus_faults_is_length:
  assumes "0 < frame_count"
  shows "(\<exists>st f h l. fifo_page_replacement pages frame_count = Inr (st, f, h, l) \<and>
            h + f = length pages \<and> map fst st = pages) \<and>
         (\<exists>st f h l. lru_page_replacement pages frame_count = Inr (st, f, h, l) \<and>
            h + f = length pages \<and> map fst st = pages) \<and>
         (\<exists>st f h l. optimal_page_replacement pages frame_count = Inr (st, f, h, l) \<and>
            h + f = length pages \<and> map fst st = pages) \<and>
         (\<exists>st f h l. lfu_page_replacement pages frame_count = Inr (st, f, h, l) \<and>
            h + f = length pages \<and> map fst st = pages)"
proof (intro conjI)
  from fifo_returns [OF assms, of pages] obtain s where
    s: "lazy_run frame_count fifo_init pages s"
       "fifo_page_replacement pages frame_count = Inr (steps s, faults s, hits s, log s)"
    by blast
  from run_from_init_counts [OF s(1)] s(2)
  show "\<exists>st f h l. fifo_page_replacement pages frame_count = Inr (st, f, h, l) \<and>
            h + f = length pages \<and> map fst st = pages"
    by (simp add: init_fields)
next
  from lru_returns [OF assms, of pages] obtain s where
    s: "lazy_run frame_count lru_init pages s"
       "lru_page_replacement pages frame_count = Inr (steps s, faults s, hits s, log s)"
    by blast
  from run_from_init_counts [OF s(1)] s(2)
  show "\<exists>st f h l. lru_page_replacement pages frame_count = Inr (st, f, h, l) \<and>
            h + f = length pages \<and> map fst st = pages"
    by (simp add: init_fields)
next
  from opt_returns [OF assms, of pages] obtain s where
    s: "lazy_run frame_count opt_init pages s"
       "optimal_page_replacement pages frame_count = Inr (steps s, faults s, hits s, log s)"
    by blast
  from run_from_init_counts [OF s(1)] s(2)
  show "\<exists>st f h l. optimal_page_replacement pages frame_count = Inr (st, f, h, l) \<and>
            h + f = length pages \<and> map fst st = pages"
    by (simp add: init_fields)
next
  from lfu_returns [OF assms, of pages] obtain s where
    s: "lazy_run frame_count lfu_init pages s"
       "lfu_page_replacement pages frame_count = Inr (steps s, faults s, hits s, log s)"
    by blast
  from run_from_init_counts [OF s(1)] s(2)
  show "\<exists>st f h l. lfu_page_replacement pages frame_count = Inr (st, f, h, l) \<and>
            h + f = length pages \<and> map fst st = pages"
    by (simp add: init_fields)
qed

theorem hits_plus_faults_is_length_witness:
  "(0::int) < 3 \<and>
   (\<exists>st f h l. fifo_page_replacement [7, 0, 1, 2, 0, 3, 0, 4] 3 = Inr (st, f, h, l) \<and>
      h + f = length [7, 0, 1, 2, 0, 3, 0, 4 :: int] \<and> map fst st = [7, 0, 1, 2, 0, 3, 0, 4]) \<and>
   (\<exists>st f h l. lru_page_replacement [7, 0, 1, 2, 0, 3, 0, 4] 3 = Inr (st, f, h, l) \<and>
      h + f = length [7, 0, 1, 2, 0, 3, 0, 4 :: int] \<and> map fst st = [7, 0, 1, 2, 0, 3, 0, 4]) \<and>
   (\<exists>st f h l. optimal_page_replacement [7, 0, 1, 2, 0, 3, 0, 4] 3 = Inr (st, f, h, l) \<and>
      h + f = length [7, 0, 1, 2, 0, 3, 0, 4 :: int] \<and> map fst st = [7, 0, 1, 2, 0, 3, 0, 4]) \<and>
   (\<exists>st f h l. lfu_page_replacement [7, 0, 1, 2, 0, 3, 0, 4] 3 = Inr (st, f, h, l) \<and>
      h + f = length [7, 0, 1, 2, 0, 3, 0, 4 :: int] \<and> map fst st = [7, 0, 1, 2, 0, 3, 0, 4])"
proof -
  have h: "(0::int) < 3" by simp
  from h hits_plus_faults_is_length [OF h, of "[7, 0, 1, 2, 0, 3, 0, 4]"]
  show ?thesis by (rule conjI)
qed

text \<open>
  C9: for every reference string and every positive frame count, each of the four
  simulators returns a trace in which every frame snapshot has at most \<open>frame_count\<close>
  pages and holds no page twice.
\<close>

theorem snapshots_bounded_distinct:
  assumes "0 < frame_count"
  shows "(\<exists>st f h l. fifo_page_replacement pages frame_count = Inr (st, f, h, l) \<and>
            (\<forall>(p, fr, x) \<in> set st. int (length fr) \<le> frame_count \<and> distinct fr)) \<and>
         (\<exists>st f h l. lru_page_replacement pages frame_count = Inr (st, f, h, l) \<and>
            (\<forall>(p, fr, x) \<in> set st. int (length fr) \<le> frame_count \<and> distinct fr)) \<and>
         (\<exists>st f h l. optimal_page_replacement pages frame_count = Inr (st, f, h, l) \<and>
            (\<forall>(p, fr, x) \<in> set st. int (length fr) \<le> frame_count \<and> distinct fr)) \<and>
         (\<exists>st f h l. lfu_page_replacement pages frame_count = Inr (st, f, h, l) \<and>
            (\<forall>(p, fr, x) \<in> set st. int (length fr) \<le> frame_count \<and> distinct fr))"
proof (intro conjI)
  from fifo_returns [OF assms, of pages] obtain s where
    s: "lazy_run frame_count fifo_init pages s"
       "fifo_page_replacement pages frame_count = Inr (steps s, faults s, hits s, log s)"
    by blast
  from run_from_init_counts [OF s(1)] s(2)
  show "\<exists>st f h l. fifo_page_replacement pages frame_count = Inr (st, f, h, l) \<and>
            (\<forall>(p, fr, x) \<in> set st. int (length fr) \<le> frame_count \<and> distinct fr)"
    by (simp add: init_fields)
next
  from lru_returns [OF assms, of pages] obtain s where
    s: "lazy_run frame_count lru_init pages s"
       "lru_page_replacement pages frame_count = Inr (steps s, faults s, hits s, log s)"
    by blast
  from run_from_init_counts [OF s(1)] s(2)
  show "\<exists>st f h l. lru_page_replacement pages frame_count = Inr (st, f, h, l) \<and>
            (\<forall>(p, fr, x) \<in> set st. int (length fr) \<le> frame_count \<and> distinct fr)"
    by (simp add: init_fields)
next
  from opt_returns [OF assms, of pages] obtain s where
    s: "lazy_run frame_count opt_init pages s"
       "optimal_page_replacement pages frame_count = Inr (steps s, faults s, hits s, log s)"
    by blast
  from run_from_init_counts [OF s(1)] s(2)
  show "\<exists>st f h l. optimal_page_replacement pages frame_count = Inr (st, f, h, l) \<and>
            (\<forall>(p, fr, x) \<in> set st. int (length fr) \<le> frame_count \<and> distinct fr)"
    by (simp add: init_fields)
next
  from lfu_returns [OF assms, of pages] obtain s where
    s: "lazy_run frame_count lfu_init pages s"
       "lfu_page_replacement pages frame_count = Inr (steps s, faults s, hits s, log s)"
    by blast
  from run_from_init_counts [OF s(1)] s(2)
  show "\<exists>st f h l. lfu_page_replacement pages frame_count = Inr (st, f, h, l) \<and>
            (\<forall>(p, fr, x) \<in> set st. int (length fr) \<le> frame_count \<and> distinct fr)"
    by (simp add: init_fields)
qed

theorem snapshots_bounded_distinct_witness:
  "(0::int) < 2 \<and>
   (\<exists>st f h l. fifo_page_replacement [1, 2, 2, 3, 1, 4] 2 = Inr (st, f, h, l) \<and>
      (\<forall>(p, fr, x) \<in> set st. int (length fr) \<le> 2 \<and> distinct fr)) \<and>
   (\<exists>st f h l. lru_page_replacement [1, 2, 2, 3, 1, 4] 2 = Inr (st, f, h, l) \<and>
      (\<forall>(p, fr, x) \<in> set st. int (length fr) \<le> 2 \<and> distinct fr)) \<and>
   (\<exists>st f h l. optimal_page_replacement [1, 2, 2, 3, 1, 4] 2 = Inr (st, f, h, l) \<and>
      (\<forall>(p, fr, x) \<in> set st. int (length fr) \<le> 2 \<and> distinct fr)) \<and>
   (\<exists>st f h l. lfu_page_replacement [1, 2, 2, 3, 1, 4] 2 = Inr (st, f, h, l) \<and>
      (\<forall>(p, fr, x) \<in> set st. int (length fr) \<le> 2 \<and> distinct fr))"
proof -
  have h: "(0::int) < 2" by simp
  from h snapshots_bounded_distinct [OF h, of "[1, 2, 2, 3, 1, 4]"]
  show ?thesis by (rule conjI)
qed

section \<open>The dictionaries of LRU and LFU\<close>

lemma lru_loop_append:
  "lru_loop k i s (xs @ ys) =
     (case lru_loop k i s xs of Inl e \<Rightarrow> Inl e | Inr s' \<Rightarrow> lru_loop k (i + length xs) s' ys)"
  by (induction xs arbitrary: i s) (auto split: sum.splits)

lemma lfu_loop_append:
  "lfu_loop k i s (xs @ ys) =
     (case lfu_loop k i s xs of Inl e \<Rightarrow> Inl e | Inr s' \<Rightarrow> lfu_loop k (i + length xs) s' ys)"
  by (induction xs arbitrary: i s) (auto split: sum.splits)

lemma lru_reached:
  assumes "0 < k"
  shows "\<exists>s. lru_loop k 0 lru_init ps = Inr s \<and> lru_inv k s"
  using lru_loop_run [OF assms, of lru_init 0 ps] assms by (auto simp: init_inv)

lemma lfu_reached:
  assumes "0 < k"
  shows "\<exists>s. lfu_loop k 0 lfu_init ps = Inr s \<and> lfu_inv k s"
  using lfu_loop_run [OF assms, of lfu_init 0 ps] assms by (auto simp: init_inv)

lemma lfu_inv_keys:
  assumes "lfu_inv k s" "p \<in> set (frames s)"
  shows "\<exists>f t. freq s p = Some f \<and> time s p = Some t \<and>
           lfu_key (freq s) (time s) p = Inr (f, t)"
proof -
  from assms have "p \<in> dom (freq s)" "p \<in> dom (time s)"
    by (auto simp: lfu_inv_def)
  then obtain f t where "freq s p = Some f" "time s p = Some t"
    by blast
  then show ?thesis by (simp add: lfu_key_def)
qed

lemma lru_inv_keys:
  assumes "lru_inv k s" "p \<in> set (frames s)"
  shows "\<exists>v. recent s p = Some v \<and> recent_key (recent s) p = Inr v"
proof -
  from assms have "p \<in> dom (recent s)"
    by (auto simp: lru_inv_def)
  then obtain v where "recent s p = Some v"
    by blast
  then show ?thesis by (simp add: recent_key_def)
qed

text \<open>
  C10: let an LRU or LFU run with a positive frame count have processed the accesses
  \<open>ps\<close>, with \<open>rest\<close> still to come. The run has not failed, it goes on from the state
  \<open>s\<close> reached, and in \<open>s\<close> every page in the frames has an entry in the recency map of
  LRU (so the key that victim selection reads is the recorded index, not the default
  \<open>-1\<close>), respectively in both the frequency and the timestamp map of LFU (so the key of
  victim selection exists); the rest of the LFU run does not fail either.
\<close>

theorem resident_pages_have_entries:
  assumes "0 < frame_count"
  shows "(\<exists>s. lru_loop frame_count 0 lru_init ps = Inr s \<and>
            lru_loop frame_count 0 lru_init (ps @ rest) = lru_loop frame_count (length ps) s rest \<and>
            (\<forall>p \<in> set (frames s). \<exists>v. recent s p = Some v \<and>
               recent_key (recent s) p = Inr v)) \<and>
         (\<exists>s s'. lfu_loop frame_count 0 lfu_init ps = Inr s \<and>
            lfu_loop frame_count 0 lfu_init (ps @ rest) = lfu_loop frame_count (length ps) s rest \<and>
            lfu_loop frame_count (length ps) s rest = Inr s' \<and>
            (\<forall>p \<in> set (frames s). \<exists>f t. freq s p = Some f \<and> time s p = Some t \<and>
               lfu_key (freq s) (time s) p = Inr (f, t)))"
proof (rule conjI)
  from lru_reached [OF assms, of ps] obtain s where
    s: "lru_loop frame_count 0 lru_init ps = Inr s" "lru_inv frame_count s"
    by blast
  have "lru_loop frame_count 0 lru_init (ps @ rest) = lru_loop frame_count (length ps) s rest"
    using s(1) by (simp add: lru_loop_append)
  then show "\<exists>s. lru_loop frame_count 0 lru_init ps = Inr s \<and>
            lru_loop frame_count 0 lru_init (ps @ rest) = lru_loop frame_count (length ps) s rest \<and>
            (\<forall>p \<in> set (frames s). \<exists>v. recent s p = Some v \<and>
               recent_key (recent s) p = Inr v)"
    using s lru_inv_keys [OF s(2)] by blast
next
  from lfu_reached [OF assms, of ps] obtain s where
    s: "lfu_loop frame_count 0 lfu_init ps = Inr s" "lfu_inv frame_count s"
    by blast
  have app: "lfu_loop frame_count 0 lfu_init (ps @ rest) =
      lfu_loop frame_count (length ps) s rest"
    using s(1) by (simp add: lfu_loop_append)
  from lfu_loop_run [OF assms s(2), of "length ps" rest] obtain s' where
    s': "lfu_loop frame_count (length ps) s rest = Inr s'"
    by blast
  show "\<exists>s s'. lfu_loop frame_count 0 lfu_init ps = Inr s \<and>
            lfu_loop frame_count 0 lfu_init (ps @ rest) = lfu_loop frame_count (length ps) s rest \<and>
            lfu_loop frame_count (length ps) s rest = Inr s' \<and>
            (\<forall>p \<in> set (frames s). \<exists>f t. freq s p = Some f \<and> time s p = Some t \<and>
               lfu_key (freq s) (time s) p = Inr (f, t))"
    using s app s' lfu_inv_keys [OF s(2)] by blast
qed

theorem resident_pages_have_entries_witness:
  "(0::int) < 2 \<and>
   (\<exists>s. lru_loop 2 0 lru_init [1, 2, 2] = Inr s \<and>
      lru_loop 2 0 lru_init ([1, 2, 2] @ [3, 1, 4]) = lru_loop 2 (length [1, 2, 2 :: int]) s [3, 1, 4] \<and>
      (\<forall>p \<in> set (frames s). \<exists>v. recent s p = Some v \<and> recent_key (recent s) p = Inr v)) \<and>
   (\<exists>s s'. lfu_loop 2 0 lfu_init [1, 2, 2] = Inr s \<and>
      lfu_loop 2 0 lfu_init ([1, 2, 2] @ [3, 1, 4]) = lfu_loop 2 (length [1, 2, 2 :: int]) s [3, 1, 4] \<and>
      lfu_loop 2 (length [1, 2, 2 :: int]) s [3, 1, 4] = Inr s' \<and>
      (\<forall>p \<in> set (frames s). \<exists>f t. freq s p = Some f \<and> time s p = Some t \<and>
         lfu_key (freq s) (time s) p = Inr (f, t)))"
proof -
  have h: "(0::int) < 2" by simp
  from h resident_pages_have_entries [OF h, of "[1, 2, 2]" "[3, 1, 4]"]
  show ?thesis by (rule conjI)
qed

section \<open>Victim selection\<close>

lemma next_use_Infinite: "next_use future f = Infinite \<longleftrightarrow> f \<notin> set future"
  using index_of_None [of f future] by (cases "index_of f future") (simp_all add: next_use_def)

lemma next_use_Fin:
  "f \<in> set future \<Longrightarrow> \<exists>n. index_of f future = Some n \<and> next_use future f = Fin (int n)"
  using index_of_mem [of f future] by (auto simp: next_use_def)

lemma not_farther_positions:
  assumes "\<not> dist_gt (next_use future f) (next_use future v)" "v \<in> set future"
  shows "f \<in> set future \<and>
         (\<exists>a b. index_of f future = Some a \<and> index_of v future = Some b \<and> a \<le> b)"
proof -
  from next_use_Fin [OF assms(2)] obtain b where
    b: "index_of v future = Some b" "next_use future v = Fin (int b)"
    by blast
  have "next_use future f \<noteq> Infinite"
    using assms(1) b(2) by auto
  then have fin: "f \<in> set future" by (simp add: next_use_Infinite)
  from next_use_Fin [OF fin] obtain a where
    a: "index_of f future = Some a" "next_use future f = Fin (int a)"
    by blast
  have "a \<le> b" using assms(1) a(2) b(2) by simp
  then show ?thesis using fin a(1) b(1) by blast
qed

text \<open>
  C4: at an OPTIMAL fault with no room (positive frame count), the victim
  \<open>frames s ! idx\<close> is named in the log and replaced in place, and
  \<^item> no resident page has a greater distance to its next use in the unprocessed suffix
    \<^verbatim>\<open>pages[i + 1:]\<close>, where a page that does not occur there has the infinite distance,
    greater than every index;
  \<^item> every resident page before the victim in the frame list has a strictly smaller
    distance: the victim is the first of the farthest;
  \<^item> if some resident page does not occur in the suffix, neither does the victim;
  \<^item> if the victim occurs in the suffix, every resident page does, and first occurs no
    later than the victim.
\<close>

theorem optimal_victim_is_first_farthest:
  assumes "0 < frame_count" "page \<notin> set (frames s)"
    "\<not> int (length (frames s)) < frame_count"
  shows "\<exists>idx. idx < length (frames s) \<and>
           opt_step frame_count pages i page s =
             Inr (s\<lparr>faults := faults s + 1,
                    frames := (frames s)[idx := page],
                    log := log s @ [LogReplaced (i + 1) page (frames s ! idx)],
                    steps := steps s @ [(page, (frames s)[idx := page], FAULT)]\<rparr>) \<and>
           (\<forall>f \<in> set (frames s).
              \<not> dist_gt (next_use (drop (i + 1) pages) f)
                   (next_use (drop (i + 1) pages) (frames s ! idx))) \<and>
           (\<forall>j < idx.
              dist_gt (next_use (drop (i + 1) pages) (frames s ! idx))
                (next_use (drop (i + 1) pages) (frames s ! j))) \<and>
           ((\<exists>f \<in> set (frames s). f \<notin> set (drop (i + 1) pages)) \<longrightarrow>
              frames s ! idx \<notin> set (drop (i + 1) pages)) \<and>
           (frames s ! idx \<in> set (drop (i + 1) pages) \<longrightarrow>
              (\<forall>f \<in> set (frames s). f \<in> set (drop (i + 1) pages) \<and>
                 (\<exists>a b. index_of f (drop (i + 1) pages) = Some a \<and>
                    index_of (frames s ! idx) (drop (i + 1) pages) = Some b \<and> a \<le> b)))"
proof -
  let ?fut = "drop (i + 1) pages"
  from assms(1,3) have ne: "frames s \<noteq> []" by auto
  from opt_victim_result [OF ne, of ?fut] obtain idx where
    idx: "idx < length (frames s)" and
    v: "opt_victim ?fut (frames s) = Some (frames s ! idx)" and
    io: "index_of (frames s ! idx) (frames s) = Some idx" and
    first: "\<forall>j < idx. dist_gt (next_use ?fut (frames s ! idx)) (next_use ?fut (frames s ! j))" and
    far: "\<forall>f \<in> set (frames s). \<not> dist_gt (next_use ?fut f) (next_use ?fut (frames s ! idx))"
    by blast
  have step: "opt_step frame_count pages i page s =
             Inr (s\<lparr>faults := faults s + 1,
                    frames := (frames s)[idx := page],
                    log := log s @ [LogReplaced (i + 1) page (frames s ! idx)],
                    steps := steps s @ [(page, (frames s)[idx := page], FAULT)]\<rparr>)"
    using assms(2,3) v io by (simp add: opt_step_def)
  have inf: "(\<exists>f \<in> set (frames s). f \<notin> set ?fut) \<longrightarrow> frames s ! idx \<notin> set ?fut"
  proof
    assume "\<exists>f \<in> set (frames s). f \<notin> set ?fut"
    then obtain f where f: "f \<in> set (frames s)" "next_use ?fut f = Infinite"
      by (auto simp: next_use_Infinite)
    with far have "\<not> dist_gt Infinite (next_use ?fut (frames s ! idx))" by force
    then have "next_use ?fut (frames s ! idx) = Infinite"
      by (cases "next_use ?fut (frames s ! idx)") simp_all
    then show "frames s ! idx \<notin> set ?fut" by (simp add: next_use_Infinite)
  qed
  have pos: "frames s ! idx \<in> set ?fut \<longrightarrow>
      (\<forall>f \<in> set (frames s). f \<in> set ?fut \<and>
         (\<exists>a b. index_of f ?fut = Some a \<and> index_of (frames s ! idx) ?fut = Some b \<and> a \<le> b))"
    using far not_farther_positions by blast
  from idx step far first inf pos show ?thesis by blast
qed

theorem optimal_victim_is_first_farthest_witness:
  "(0::int) < 3 \<and>
   4 \<notin> set (frames \<lparr>frames = [1, 2, 3], faults = 3, hits = 0, steps = [], log = []\<rparr>) \<and>
   \<not> int (length (frames \<lparr>frames = [1, 2, 3], faults = 3, hits = 0, steps = [], log = []\<rparr>)) < 3 \<and>
   opt_step 3 [1, 2, 3, 4, 1, 2] 3 4
       \<lparr>frames = [1, 2, 3], faults = 3, hits = 0, steps = [], log = []\<rparr> =
     Inr \<lparr>frames = [1, 2, 4], faults = 4, hits = 0, steps = [(4, [1, 2, 4], FAULT)],
          log = [LogReplaced 4 4 3]\<rparr>"
proof -
  let ?s = "\<lparr>frames = [1, 2, 3], faults = 3, hits = 0, steps = [], log = []\<rparr> :: sim_state"
  have h1: "(0::int) < 3" by simp
  have h2: "4 \<notin> set (frames ?s)" by simp
  have h3: "\<not> int (length (frames ?s)) < 3" by simp
  from optimal_victim_is_first_farthest [OF h1 h2 h3, of "[1, 2, 3, 4, 1, 2]" 3]
  obtain idx where idx: "idx < length (frames ?s)"
    "opt_step 3 [1, 2, 3, 4, 1, 2] 3 4 ?s =
             Inr (?s\<lparr>faults := faults ?s + 1,
                    frames := (frames ?s)[idx := 4],
                    log := log ?s @ [LogReplaced (3 + 1) 4 (frames ?s ! idx)],
                    steps := steps ?s @ [(4, (frames ?s)[idx := 4], FAULT)]\<rparr>)"
    "(\<exists>f \<in> set (frames ?s). f \<notin> set (drop (3 + 1) [1, 2, 3, 4, 1, 2])) \<longrightarrow>
              frames ?s ! idx \<notin> set (drop (3 + 1) [1, 2, 3, 4, 1, 2])"
    by blast
  from idx(3) have "frames ?s ! idx \<noteq> 1 \<and> frames ?s ! idx \<noteq> 2" by simp
  with idx(1) have "idx = 2"
    by (cases idx; simp; cases "idx - 1"; simp; cases "idx - 2"; simp)
  with idx(2) h1 h2 h3 show ?thesis by simp
qed

text \<open>
  C5: let an LFU run with a positive frame count have processed the accesses \<open>ps\<close> and
  reached the state \<open>s\<close>, and let the next access \<open>page\<close> be a fault with no room. Then
  the step does not fail, the victim \<open>frames s ! idx\<close> is named in the log and replaced
  in place, its key \<open>(fv, tv)\<close> (frequency, last-used timestamp) is least among the keys
  of the resident pages in the order "frequency ascending, then timestamp ascending",
  and every resident page before the victim in the frame list has a strictly greater
  key. On \<open>[1,2,2,3,1,4]\<close> with two frames the victims are 1, 3 and 1: page 2 is never
  the victim.
\<close>

theorem lfu_victim_is_least_key:
  assumes "0 < frame_count" "lfu_loop frame_count 0 lfu_init ps = Inr s"
    "page \<notin> set (frames s)" "\<not> int (length (frames s)) < frame_count"
  shows "(\<exists>idx fv tv. idx < length (frames s) \<and>
            lfu_step frame_count (length ps) page s =
              Inr (s\<lparr>faults := faults s + 1,
                     log := log s @ [LogReplaced (length ps + 1) page (frames s ! idx)],
                     frames := (frames s)[idx := page],
                     freq := ((freq s)(frames s ! idx := None))(page \<mapsto> 1),
                     time := ((time s)(frames s ! idx := None))(page \<mapsto> int (length ps)),
                     steps := steps s @ [(page, (frames s)[idx := page], FAULT)]\<rparr>) \<and>
            freq s (frames s ! idx) = Some fv \<and> time s (frames s ! idx) = Some tv \<and>
            (\<forall>p \<in> set (frames s). \<exists>fp tp. freq s p = Some fp \<and> time s p = Some tp \<and>
               (fv < fp \<or> (fv = fp \<and> tv \<le> tp))) \<and>
            (\<forall>j < idx. \<exists>fj tj. freq s (frames s ! j) = Some fj \<and>
               time s (frames s ! j) = Some tj \<and> (fv < fj \<or> (fv = fj \<and> tv < tj)))) \<and>
         log_of (lfu_page_replacement [1, 2, 2, 3, 1, 4] 2) =
           Some [LogLoaded 1 1, LogLoaded 2 2, LogHit 3 2,
                 LogReplaced 4 3 1, LogReplaced 5 1 3, LogReplaced 6 4 1]"
proof (rule conjI)
  from lfu_reached [OF assms(1), of ps] assms(2) have inv: "lfu_inv frame_count s"
    by auto
  let ?kf = "\<lambda>x. (the (freq s x), the (time s x))"
  from assms(1,4) have ne: "frames s \<noteq> []" by auto
  have dom: "\<forall>x \<in> set (frames s). \<exists>f t. freq s x = Some f \<and> time s x = Some t"
    using lfu_inv_keys [OF inv] by blast
  have keys: "\<forall>x \<in> set (frames s). lfu_key (freq s) (time s) x = Inr (?kf x)"
    using dom by (auto simp: lfu_key_def)
  from py_min_result [OF ne keys] obtain v idx where
    v: "py_min (lfu_key (freq s) (time s)) (frames s) = Inr v" and
    idx: "idx < length (frames s)" "frames s ! idx = v" and
    first: "\<forall>j < idx. ?kf v < ?kf (frames s ! j)" and
    least: "\<forall>x \<in> set (frames s). ?kf v \<le> ?kf x"
    by blast
  have io: "index_of v (frames s) = Some idx"
    using first_least_index [of idx "frames s" ?kf] idx first by simp
  have vin: "v \<in> set (frames s)" using idx by auto
  with dom obtain fv tv where fv: "freq s v = Some fv" "time s v = Some tv"
    by blast
  have step: "lfu_step frame_count (length ps) page s =
              Inr (s\<lparr>faults := faults s + 1,
                     log := log s @ [LogReplaced (length ps + 1) page (frames s ! idx)],
                     frames := (frames s)[idx := page],
                     freq := ((freq s)(frames s ! idx := None))(page \<mapsto> 1),
                     time := ((time s)(frames s ! idx := None))(page \<mapsto> int (length ps)),
                     steps := steps s @ [(page, (frames s)[idx := page], FAULT)]\<rparr>)"
    using assms(3,4) v io fv idx(2) by (simp add: lfu_step_def)
  have a: "\<forall>p \<in> set (frames s). \<exists>fp tp. freq s p = Some fp \<and> time s p = Some tp \<and>
               (fv < fp \<or> (fv = fp \<and> tv \<le> tp))"
  proof
    fix p assume p: "p \<in> set (frames s)"
    with dom obtain fp tp where fp: "freq s p = Some fp" "time s p = Some tp" by blast
    from least p have "?kf v \<le> ?kf p" by blast
    then have "fv < fp \<or> (fv = fp \<and> tv \<le> tp)"
      using fv fp by (auto simp: less_eq_prod_def)
    then show "\<exists>fp tp. freq s p = Some fp \<and> time s p = Some tp \<and>
               (fv < fp \<or> (fv = fp \<and> tv \<le> tp))"
      using fp by blast
  qed
  have b: "\<forall>j < idx. \<exists>fj tj. freq s (frames s ! j) = Some fj \<and>
               time s (frames s ! j) = Some tj \<and> (fv < fj \<or> (fv = fj \<and> tv < tj))"
  proof (intro allI impI)
    fix j assume j: "j < idx"
    then have "frames s ! j \<in> set (frames s)" using idx(1) by auto
    with dom obtain fj tj where fj: "freq s (frames s ! j) = Some fj"
      "time s (frames s ! j) = Some tj" by blast
    from first j have "?kf v < ?kf (frames s ! j)" by blast
    then have "fv < fj \<or> (fv = fj \<and> tv < tj)"
      using fv fj by (auto simp: less_prod_def)
    then show "\<exists>fj tj. freq s (frames s ! j) = Some fj \<and>
               time s (frames s ! j) = Some tj \<and> (fv < fj \<or> (fv = fj \<and> tv < tj))"
      using fj by blast
  qed
  from idx(1) step fv a b idx(2)
  show "\<exists>idx fv tv. idx < length (frames s) \<and>
            lfu_step frame_count (length ps) page s =
              Inr (s\<lparr>faults := faults s + 1,
                     log := log s @ [LogReplaced (length ps + 1) page (frames s ! idx)],
                     frames := (frames s)[idx := page],
                     freq := ((freq s)(frames s ! idx := None))(page \<mapsto> 1),
                     time := ((time s)(frames s ! idx := None))(page \<mapsto> int (length ps)),
                     steps := steps s @ [(page, (frames s)[idx := page], FAULT)]\<rparr>) \<and>
            freq s (frames s ! idx) = Some fv \<and> time s (frames s ! idx) = Some tv \<and>
            (\<forall>p \<in> set (frames s). \<exists>fp tp. freq s p = Some fp \<and> time s p = Some tp \<and>
               (fv < fp \<or> (fv = fp \<and> tv \<le> tp))) \<and>
            (\<forall>j < idx. \<exists>fj tj. freq s (frames s ! j) = Some fj \<and>
               time s (frames s ! j) = Some tj \<and> (fv < fj \<or> (fv = fj \<and> tv < tj)))"
    by blast
next
  show "log_of (lfu_page_replacement [1, 2, 2, 3, 1, 4] 2) =
           Some [LogLoaded 1 1, LogLoaded 2 2, LogHit 3 2,
                 LogReplaced 4 3 1, LogReplaced 5 1 3, LogReplaced 6 4 1]"
    by (simp add: log_of_def lfu_page_replacement_def lfu_init_def lfu_step_def
        py_min_def lfu_key_def result_of_def)
qed


theorem lfu_victim_is_least_key_witness:
  "(0::int) < 2 \<and>
   lfu_loop 2 0 lfu_init [1, 2, 2] = Inr lfu_example_state \<and>
   3 \<notin> set (frames lfu_example_state) \<and>
   \<not> int (length (frames lfu_example_state)) < 2 \<and>
   (\<exists>idx fv tv. idx < length (frames lfu_example_state) \<and>
            lfu_step 2 (length [1, 2, 2 :: int]) 3 lfu_example_state =
              Inr (lfu_example_state\<lparr>faults := faults lfu_example_state + 1,
                     log := log lfu_example_state @ [LogReplaced (length [1, 2, 2 :: int] + 1) 3 (frames lfu_example_state ! idx)],
                     frames := (frames lfu_example_state)[idx := 3],
                     freq := ((freq lfu_example_state)(frames lfu_example_state ! idx := None))(3 \<mapsto> 1),
                     time := ((time lfu_example_state)(frames lfu_example_state ! idx := None))(3 \<mapsto> int (length [1, 2, 2 :: int])),
                     steps := steps lfu_example_state @ [(3, (frames lfu_example_state)[idx := 3], FAULT)]\<rparr>) \<and>
            freq lfu_example_state (frames lfu_example_state ! idx) = Some fv \<and> time lfu_example_state (frames lfu_example_state ! idx) = Some tv \<and>
            (\<forall>p \<in> set (frames lfu_example_state). \<exists>fp tp. freq lfu_example_state p = Some fp \<and> time lfu_example_state p = Some tp \<and>
               (fv < fp \<or> (fv = fp \<and> tv \<le> tp))) \<and>
            (\<forall>j < idx. \<exists>fj tj. freq lfu_example_state (frames lfu_example_state ! j) = Some fj \<and>
               time lfu_example_state (frames lfu_example_state ! j) = Some tj \<and> (fv < fj \<or> (fv = fj \<and> tv < tj))))"
proof -
  have h1: "(0::int) < 2" by simp
  have h2: "lfu_loop 2 0 lfu_init [1, 2, 2] = Inr lfu_example_state"
    by (simp add: lfu_init_def lfu_step_def lfu_example_state_def)
  have h3: "3 \<notin> set (frames lfu_example_state)"
    by (simp add: lfu_example_state_def)
  have h4: "\<not> int (length (frames lfu_example_state)) < 2"
    by (simp add: lfu_example_state_def)
  from lfu_victim_is_least_key [OF h1 h2 h3 h4, THEN conjunct1] h1 h2 h3 h4
  show ?thesis by blast
qed

section \<open>The recency map of LRU at an eviction\<close>

text \<open>
  C6 (as the spec states it): after every LRU eviction the evicted page's entry is removed
  from the recency map. With one frame and the accesses 1, 2, page 1 is evicted at the
  second access (the log says so, and the frames hold only 2), and the recency map still
  has its entry \<open>1 \<mapsto> 0\<close> when the run ends.
\<close>

theorem lru_eviction_keeps_entry_counterexample:
  "log (projr (lru_loop 1 0 lru_init [1, 2])) = [LogLoaded 1 1, LogReplaced 2 2 1] \<and>
   frames (projr (lru_loop 1 0 lru_init [1, 2])) = [2] \<and>
   recent (projr (lru_loop 1 0 lru_init [1, 2])) 1 = Some 0"
  by (simp add: lru_init_def lru_step_def py_min_def recent_key_def)

text \<open>
  C6 (amended): at an LRU fault with no room (positive frame count) the victim
  \<open>frames s ! idx\<close> is replaced in place, the recency of the page brought in is set to
  the current access index \<open>i\<close>, and every other entry of the recency map, the one of
  the evicted page included, stays as it was.
\<close>

theorem lru_eviction_recency:
  assumes "0 < frame_count" "page \<notin> set (frames s)"
    "\<not> int (length (frames s)) < frame_count"
  shows "\<exists>idx s'. idx < length (frames s) \<and> lru_step frame_count i page s = Inr s' \<and>
           frames s' = (frames s)[idx := page] \<and>
           log s' = log s @ [LogReplaced (i + 1) page (frames s ! idx)] \<and>
           recent s' page = Some (int i) \<and>
           recent s' (frames s ! idx) = recent s (frames s ! idx) \<and>
           recent s' = (recent s)(page \<mapsto> int i)"
proof -
  let ?kf = "\<lambda>x. case recent s x of None \<Rightarrow> - 1 | Some v \<Rightarrow> v"
  from assms(1,3) have ne: "frames s \<noteq> []" by auto
  have keys: "\<forall>x \<in> set (frames s). recent_key (recent s) x = Inr (?kf x)"
    by (simp add: recent_key_def)
  from py_min_result [OF ne keys] obtain v idx where
    v: "py_min (recent_key (recent s)) (frames s) = Inr v" and
    idx: "idx < length (frames s)" "frames s ! idx = v" and
    first: "\<forall>j < idx. ?kf v < ?kf (frames s ! j)"
    by blast
  have io: "index_of v (frames s) = Some idx"
    using first_least_index [of idx "frames s" ?kf] idx first by simp
  have "v \<in> set (frames s)" using idx by auto
  with assms(2) have neq: "v \<noteq> page" by auto
  let ?s' = "s\<lparr>faults := faults s + 1,
               frames := (frames s)[idx := page],
               log := log s @ [LogReplaced (i + 1) page v],
               recent := (recent s)(page \<mapsto> int i),
               steps := steps s @ [(page, (frames s)[idx := page], FAULT)]\<rparr>"
  have step: "lru_step frame_count i page s = Inr ?s'"
    using assms(2,3) v io by (simp add: lru_step_def)
  have "frames ?s' = (frames s)[idx := page]"
    "log ?s' = log s @ [LogReplaced (i + 1) page (frames s ! idx)]"
    "recent ?s' page = Some (int i)"
    "recent ?s' (frames s ! idx) = recent s (frames s ! idx)"
    "recent ?s' = (recent s)(page \<mapsto> int i)"
    using idx(2) neq by simp_all
  with idx(1) step show ?thesis by blast
qed

theorem lru_eviction_recency_witness:
  "(0::int) < 1 \<and> 2 \<notin> set (frames (projr (lru_loop 1 0 lru_init [1]))) \<and>
   \<not> int (length (frames (projr (lru_loop 1 0 lru_init [1])))) < 1 \<and>
   (\<exists>idx s'. idx < length (frames (projr (lru_loop 1 0 lru_init [1]))) \<and>
      lru_step 1 1 2 (projr (lru_loop 1 0 lru_init [1])) = Inr s' \<and>
      frames s' = (frames (projr (lru_loop 1 0 lru_init [1])))[idx := 2] \<and>
      log s' = log (projr (lru_loop 1 0 lru_init [1])) @
        [LogReplaced (1 + 1) 2 (frames (projr (lru_loop 1 0 lru_init [1])) ! idx)] \<and>
      recent s' 2 = Some (int 1) \<and>
      recent s' (frames (projr (lru_loop 1 0 lru_init [1])) ! idx) =
        recent (projr (lru_loop 1 0 lru_init [1]))
          (frames (projr (lru_loop 1 0 lru_init [1])) ! idx) \<and>
      recent s' = (recent (projr (lru_loop 1 0 lru_init [1])))(2 \<mapsto> int 1))"
proof -
  let ?s = "projr (lru_loop 1 0 lru_init [1])"
  have fr: "frames ?s = [1]"
    by (simp add: lru_init_def lru_step_def)
  have h1: "(0::int) < 1" by simp
  have h2: "2 \<notin> set (frames ?s)" unfolding fr by simp
  have h3: "\<not> int (length (frames ?s)) < 1" unfolding fr by simp
  from lru_eviction_recency [OF h1 h2 h3, of 1] h1 h2 h3
  show ?thesis by blast
qed

section \<open>Invalid input\<close>

lemma first_step_nonpositive:
  assumes "frame_count \<le> 0"
  shows "fifo_step frame_count 1 page fifo_init = Inl IndexError"
    "lru_step frame_count 0 page lru_init = Inl ValueError"
    "opt_step frame_count pages 0 page opt_init = Inl ValueError"
    "lfu_step frame_count 0 page lfu_init = Inl ValueError"
  using assms
  by (simp_all add: fifo_step_def fifo_init_def py_index_def lru_step_def lru_init_def
      py_min_def opt_step_def opt_init_def opt_victim_def lfu_step_def lfu_init_def)

text \<open>
  C3 (as the spec states it): a simulator called with an empty reference string fails with
  an error of its own kind, and one called with a frame count \<open>\<le> 0\<close> fails with another
  kind that is not a crash. FIFO returns normally on the empty reference string, with an
  empty trace and both counts zero, and with the frame count 0 it raises the IndexError
  of the list access \<^verbatim>\<open>frames[queue_index]\<close>.
\<close>

theorem simulators_do_not_validate_counterexample:
  "fifo_page_replacement [] 3 = Inr ([], 0, 0, []) \<and>
   fifo_page_replacement [1] 0 = Inl IndexError"
  by (simp add: fifo_page_replacement_def fifo_init_def fifo_step_def py_index_def
      result_of_def)

text \<open>
  C3 (amended): invalid input is rejected by \<^verbatim>\<open>parse_input\<close>, before any simulator is
  called: a frame count \<open>\<le> 0\<close>, an empty reference list and a field that does not
  convert all give the same single failure \<^verbatim>\<open>(None, None)\<close>, not errors of different
  kinds, and then every button handler returns without simulating, so no step record is
  produced. The simulators themselves do not validate. Called with an empty reference
  string, each returns an empty trace with 0 faults and 0 hits. Called with a frame count
  \<open>\<le> 0\<close> and a non-empty reference string, each raises at its first access, before any
  step record is appended: IndexError in FIFO, ValueError in LRU, OPTIMAL and LFU.
\<close>

theorem invalid_input_is_rejected_by_parse_input:
  "(frame_count \<le> 0 \<longrightarrow> parse_input (Some frame_count) ref_field = None) \<and>
   parse_input frame_field (Some []) = None \<and>
   parse_input None ref_field = None \<and>
   parse_input frame_field None = None \<and>
   (parse_input frame_field ref_field = None \<longrightarrow>
      run_fifo frame_field ref_field = None \<and> run_lru frame_field ref_field = None \<and>
      run_optimal frame_field ref_field = None \<and> run_lfu frame_field ref_field = None \<and>
      compare_all frame_field ref_field = None) \<and>
   fifo_page_replacement [] frame_count = Inr ([], 0, 0, []) \<and>
   lru_page_replacement [] frame_count = Inr ([], 0, 0, []) \<and>
   optimal_page_replacement [] frame_count = Inr ([], 0, 0, []) \<and>
   lfu_page_replacement [] frame_count = Inr ([], 0, 0, []) \<and>
   (frame_count \<le> 0 \<longrightarrow>
      fifo_step frame_count 1 page fifo_init = Inl IndexError \<and>
      lru_step frame_count 0 page lru_init = Inl ValueError \<and>
      opt_step frame_count (page # rest) 0 page opt_init = Inl ValueError \<and>
      lfu_step frame_count 0 page lfu_init = Inl ValueError \<and>
      fifo_page_replacement (page # rest) frame_count = Inl IndexError \<and>
      lru_page_replacement (page # rest) frame_count = Inl ValueError \<and>
      optimal_page_replacement (page # rest) frame_count = Inl ValueError \<and>
      lfu_page_replacement (page # rest) frame_count = Inl ValueError)"
proof (intro conjI impI)
  show "parse_input frame_field (Some []) = None"
    by (simp add: parse_input_def split: option.splits)
  show "parse_input None ref_field = None"
    by (simp add: parse_input_def)
  show "parse_input frame_field None = None"
    by (simp add: parse_input_def split: option.splits)
  show "fifo_page_replacement [] frame_count = Inr ([], 0, 0, [])"
    by (simp add: fifo_page_replacement_def fifo_init_def result_of_def)
  show "lru_page_replacement [] frame_count = Inr ([], 0, 0, [])"
    by (simp add: lru_page_replacement_def lru_init_def result_of_def)
  show "optimal_page_replacement [] frame_count = Inr ([], 0, 0, [])"
    by (simp add: optimal_page_replacement_def opt_init_def result_of_def)
  show "lfu_page_replacement [] frame_count = Inr ([], 0, 0, [])"
    by (simp add: lfu_page_replacement_def lfu_init_def result_of_def)
next
  assume "frame_count \<le> 0"
  then show "parse_input (Some frame_count) ref_field = None"
    by (simp add: parse_input_def)
next
  assume none: "parse_input frame_field ref_field = None"
  then show "run_fifo frame_field ref_field = None" "run_lru frame_field ref_field = None"
    "run_optimal frame_field ref_field = None" "run_lfu frame_field ref_field = None"
    "compare_all frame_field ref_field = None"
    by (simp_all add: run_fifo_def run_lru_def run_optimal_def run_lfu_def run_with_def
        compare_all_def)
next
  assume np: "frame_count \<le> 0"
  note first = first_step_nonpositive [OF np]
  show "fifo_step frame_count 1 page fifo_init = Inl IndexError" by (rule first)
  show "lru_step frame_count 0 page lru_init = Inl ValueError" by (rule first)
  show "opt_step frame_count (page # rest) 0 page opt_init = Inl ValueError" by (rule first)
  show "lfu_step frame_count 0 page lfu_init = Inl ValueError" by (rule first)
  show "fifo_page_replacement (page # rest) frame_count = Inl IndexError"
    using first by (simp add: fifo_page_replacement_def)
  show "lru_page_replacement (page # rest) frame_count = Inl ValueError"
    using first by (simp add: lru_page_replacement_def)
  show "optimal_page_replacement (page # rest) frame_count = Inl ValueError"
    using first by (simp add: optimal_page_replacement_def)
  show "lfu_page_replacement (page # rest) frame_count = Inl ValueError"
    using first by (simp add: lfu_page_replacement_def)
qed

theorem invalid_input_is_rejected_by_parse_input_witness:
  "(0::int) \<le> 0 \<and> parse_input (Some 0) (Some [7, 0, 1]) = None \<and>
   run_fifo (Some 0) (Some [7, 0, 1]) = None \<and> run_lru (Some 0) (Some [7, 0, 1]) = None \<and>
   run_optimal (Some 0) (Some [7, 0, 1]) = None \<and> run_lfu (Some 0) (Some [7, 0, 1]) = None \<and>
   compare_all (Some 0) (Some [7, 0, 1]) = None \<and>
   fifo_step 0 1 7 fifo_init = Inl IndexError \<and>
   lru_step 0 0 7 lru_init = Inl ValueError \<and>
   opt_step 0 (7 # [0, 1]) 0 7 opt_init = Inl ValueError \<and>
   lfu_step 0 0 7 lfu_init = Inl ValueError \<and>
   fifo_page_replacement (7 # [0, 1]) 0 = Inl IndexError \<and>
   lru_page_replacement (7 # [0, 1]) 0 = Inl ValueError \<and>
   optimal_page_replacement (7 # [0, 1]) 0 = Inl ValueError \<and>
   lfu_page_replacement (7 # [0, 1]) 0 = Inl ValueError"
proof -
  have h: "(0::int) \<le> 0" by simp
  note t = invalid_input_is_rejected_by_parse_input
    [of 0 "Some [7, 0, 1]" "Some 0" 7 "[0, 1]"]
  from t h have p: "parse_input (Some 0) (Some [7, 0, 1]) = None" by blast
  from t h p show ?thesis by blast
qed

section \<open>Ties in the comparison\<close>

text \<open>
  C7: on \<open>[1,2,3,4,5]\<close> with three frames all four simulators fault five times.
  \<^verbatim>\<open>compare_all\<close> (\<^verbatim>\<open>secondapp.py\<close>) shows the single name FIFO, the first of the
  minimal entries in the fixed list order, while \<^verbatim>\<open>run_both\<close> (\<^verbatim>\<open>app.py\<close>) names
  the tie of FIFO and LRU as "Both Equal".
\<close>

theorem compare_all_reports_single_winner_on_tie:
  "compare_all (Some 3) (Some [1, 2, 3, 4, 5]) = Some (Inr (''FIFO'', [5, 5, 5, 5])) \<and>
   run_both (Some 3) (Some [1, 2, 3, 4, 5]) = Some (Inr ''Both Equal'')"
proof (rule conjI)
  have f: "fifo_page_replacement [1, 2, 3, 4, 5] 3 =
      Inr ([(1, [1], FAULT), (2, [1, 2], FAULT), (3, [1, 2, 3], FAULT),
            (4, [4, 2, 3], FAULT), (5, [4, 5, 3], FAULT)], 5, 0,
           [LogLoaded 1 1, LogLoaded 2 2, LogLoaded 3 3, LogReplaced 4 4 1,
            LogReplaced 5 5 2])"
    by (simp add: fifo_page_replacement_def fifo_init_def fifo_step_def py_index_def
        result_of_def)
  have l: "lru_page_replacement [1, 2, 3, 4, 5] 3 =
      Inr ([(1, [1], FAULT), (2, [1, 2], FAULT), (3, [1, 2, 3], FAULT),
            (4, [4, 2, 3], FAULT), (5, [4, 5, 3], FAULT)], 5, 0,
           [LogLoaded 1 1, LogLoaded 2 2, LogLoaded 3 3, LogReplaced 4 4 1,
            LogReplaced 5 5 2])"
    by (simp add: lru_page_replacement_def lru_init_def lru_step_def py_min_def
        recent_key_def result_of_def)
  have opt: "optimal_page_replacement [1, 2, 3, 4, 5] 3 =
      Inr ([(1, [1], FAULT), (2, [1, 2], FAULT), (3, [1, 2, 3], FAULT),
            (4, [4, 2, 3], FAULT), (5, [5, 2, 3], FAULT)], 5, 0,
           [LogLoaded 1 1, LogLoaded 2 2, LogLoaded 3 3, LogReplaced 4 4 1,
            LogReplaced 5 5 4])"
    by (simp add: optimal_page_replacement_def opt_init_def opt_step_def opt_victim_def
        next_use_def result_of_def)
  have lfu: "lfu_page_replacement [1, 2, 3, 4, 5] 3 =
      Inr ([(1, [1], FAULT), (2, [1, 2], FAULT), (3, [1, 2, 3], FAULT),
            (4, [4, 2, 3], FAULT), (5, [4, 5, 3], FAULT)], 5, 0,
           [LogLoaded 1 1, LogLoaded 2 2, LogLoaded 3 3, LogReplaced 4 4 1,
            LogReplaced 5 5 2])"
    by (simp add: lfu_page_replacement_def lfu_init_def lfu_step_def py_min_def
        lfu_key_def result_of_def)
  show "compare_all (Some 3) (Some [1, 2, 3, 4, 5]) = Some (Inr (''FIFO'', [5, 5, 5, 5]))"
    by (simp add: compare_all_def parse_input_def f l opt lfu py_min_def faults_key_def)
  show "run_both (Some 3) (Some [1, 2, 3, 4, 5]) = Some (Inr ''Both Equal'')"
    by (simp add: run_both_def parse_input_def f l)
qed

section \<open>Demand paging schedules\<close>

inductive_cases sched_ConsE: "sched k S (p # ps) n"

text \<open>More resident pages never cost more.\<close>

lemma sched_mono:
  assumes "sched k B ps n"
  shows "B \<subseteq> A \<Longrightarrow> finite A \<Longrightarrow> card A \<le> k \<Longrightarrow> \<exists>m \<le> n. sched k A ps m"
  using assms
proof (induction arbitrary: A rule: sched.induct)
  case (sched_Nil S)
  show ?case by (auto intro: sched.sched_Nil)
next
  case (sched_Hit p S ps n)
  from sched_Hit.IH [OF sched_Hit.prems] obtain m where "m \<le> n" "sched k A ps m"
    by blast
  moreover have "p \<in> A" using sched_Hit.hyps(1) sched_Hit.prems(1) by blast
  ultimately have "m \<le> n" "sched k A (p # ps) m"
    by (simp_all add: sched.sched_Hit)
  then show ?case by blast
next
  case (sched_Fault p S S' ps n)
  show ?case
  proof (cases "p \<in> A")
    case True
    have "S' \<subseteq> A" using sched_Fault.hyps(3) sched_Fault.prems(1) True by blast
    from sched_Fault.IH [OF this sched_Fault.prems(2,3)] obtain m where
      m: "m \<le> n" "sched k A ps m" by blast
    have "sched k A (p # ps) m" using True m(2) by (rule sched.sched_Hit)
    moreover have "m \<le> Suc n" using m(1) by simp
    ultimately show ?thesis by blast
  next
    case False
    have "S' \<subseteq> insert p A" using sched_Fault.hyps(3) sched_Fault.prems(1) by blast
    with False sched_Fault.hyps(2) have "sched k A (p # ps) (Suc n)"
      using sched_Fault.hyps(4,5,6) by (rule sched.sched_Fault)
    then show ?thesis by blast
  qed
qed

lemma sched_one:
  assumes "sched k B ps n"
  shows "finite B \<Longrightarrow> card B \<le> k \<Longrightarrow> B - {b} \<subseteq> A \<Longrightarrow> finite A \<Longrightarrow> card A \<le> k \<Longrightarrow>
         \<exists>m \<le> Suc n. sched k A ps m"
  using assms
proof (induction arbitrary: A b rule: sched.induct)
  case (sched_Nil S)
  have "sched k A [] 0" by (rule sched.sched_Nil)
  then show ?case by blast
next
  case (sched_Hit p S ps n)
  show ?case
  proof (cases "p \<in> A")
    case True
    from sched_Hit.IH [OF sched_Hit.prems] obtain m where
      m: "m \<le> Suc n" "sched k A ps m"
      by blast
    have "sched k A (p # ps) m" using True m(2) by (rule sched.sched_Hit)
    then show ?thesis using m(1) by blast
  next
    case False
    have "S \<subseteq> insert p A" using sched_Hit.hyps(1) sched_Hit.prems(3) False by blast
    with False sched_Hit.hyps(1) have "sched k A (p # ps) (Suc n)"
      using sched_Hit.prems(1,2) sched_Hit.hyps(2) by (rule sched.sched_Fault)
    then show ?thesis by blast
  qed
next
  case (sched_Fault p S S' ps n)
  show ?case
  proof (cases "p \<in> A")
    case True
    have "S' - {b} \<subseteq> A"
      using sched_Fault.hyps(3) sched_Fault.prems(3) True by blast
    from sched_Fault.IH [OF sched_Fault.hyps(4,5) this sched_Fault.prems(4,5)] obtain m where
      m: "m \<le> Suc n" "sched k A ps m" by blast
    have "sched k A (p # ps) m" using True m(2) by (rule sched.sched_Hit)
    moreover have "m \<le> Suc (Suc n)" using m(1) by simp
    ultimately show ?thesis by blast
  next
    case False
    let ?A' = "insert p (S' - {b})"
    have sub: "?A' \<subseteq> S'" using sched_Fault.hyps(2) by blast
    have fin: "finite ?A'" using sched_Fault.hyps(4) by simp
    have "card ?A' \<le> card S'" using sched_Fault.hyps(4) sub by (rule card_mono)
    then have card: "card ?A' \<le> k" using sched_Fault.hyps(5) by simp
    have "S' - {b} \<subseteq> ?A'" by blast
    from sched_Fault.IH [OF sched_Fault.hyps(4,5) this fin card] obtain m where
      m: "m \<le> Suc n" "sched k ?A' ps m" by blast
    have pin: "p \<in> ?A'" by simp
    have "?A' \<subseteq> insert p A"
      using sched_Fault.hyps(3) sched_Fault.prems(3) by blast
    with False pin have "sched k A (p # ps) (Suc m)"
      using fin card m(2) by (rule sched.sched_Fault)
    then show ?thesis using m(1) by blast
  qed
qed

lemma sched_exchange:
  assumes "sched k B ps n"
  shows "B - {y} \<subseteq> A \<Longrightarrow> x \<in> A \<Longrightarrow> x \<notin> B \<Longrightarrow> finite A \<Longrightarrow> card A \<le> k \<Longrightarrow>
         y \<notin> set (takeWhile (\<lambda>q. q \<noteq> x) ps) \<Longrightarrow> \<exists>m \<le> n. sched k A ps m"
  using assms
proof (induction arbitrary: A rule: sched.induct)
  case (sched_Nil S)
  have "sched k A [] 0" by (rule sched.sched_Nil)
  then show ?case by blast
next
  case (sched_Hit p S ps n)
  have px: "p \<noteq> x" using sched_Hit.hyps(1) sched_Hit.prems(3) by blast
  then have py: "p \<noteq> y" and later: "y \<notin> set (takeWhile (\<lambda>q. q \<noteq> x) ps)"
    using sched_Hit.prems(6) by simp_all
  have pA: "p \<in> A" using sched_Hit.hyps(1) py sched_Hit.prems(1) by blast
  from sched_Hit.IH [OF sched_Hit.prems(1-5) later] obtain m where
    m: "m \<le> n" "sched k A ps m" by blast
  have "sched k A (p # ps) m" using pA m(2) by (rule sched.sched_Hit)
  then show ?case using m(1) by blast
next
  case (sched_Fault p S S' ps n)
  show ?case
  proof (cases "p = x")
    case True
    have "S' - {y} \<subseteq> A"
      using sched_Fault.hyps(3) sched_Fault.prems(1,2) True by blast
    from sched_one [OF sched_Fault.hyps(6,4,5) this sched_Fault.prems(4,5)] obtain m where
      m: "m \<le> Suc n" "sched k A ps m" by blast
    have "p \<in> A" using True sched_Fault.prems(2) by simp
    then have "sched k A (p # ps) m" using m(2) by (rule sched.sched_Hit)
    then show ?thesis using m(1) by blast
  next
    case px: False
    then have py: "p \<noteq> y" and later: "y \<notin> set (takeWhile (\<lambda>q. q \<noteq> x) ps)"
      using sched_Fault.prems(6) by simp_all
    have xS': "x \<notin> S'" using sched_Fault.hyps(3) sched_Fault.prems(3) px by blast
    show ?thesis
    proof (cases "p \<in> A")
      case True
      have "S' - {y} \<subseteq> A"
        using sched_Fault.hyps(3) sched_Fault.prems(1) True by blast
      from sched_Fault.IH [OF this sched_Fault.prems(2) xS' sched_Fault.prems(4,5) later]
      obtain m where m: "m \<le> n" "sched k A ps m" by blast
      have "sched k A (p # ps) m" using True m(2) by (rule sched.sched_Hit)
      moreover have "m \<le> Suc n" using m(1) by simp
      ultimately show ?thesis by blast
    next
      case pA: False
      show ?thesis
      proof (cases "y \<in> S'")
        case True
        let ?A' = "insert x (S' - {y})"
        have fin: "finite ?A'" using sched_Fault.hyps(4) by simp
        have "card ?A' = Suc (card (S' - {y}))"
          using xS' sched_Fault.hyps(4) by simp
        also have "\<dots> = card S'"
          using sched_Fault.hyps(4) True by (rule card_Suc_Diff1)
        finally have card: "card ?A' \<le> k" using sched_Fault.hyps(5) by simp
        have a: "S' - {y} \<subseteq> ?A'" and b: "x \<in> ?A'" by blast+
        from sched_Fault.IH [OF a b xS' fin card later] obtain m where
          m: "m \<le> n" "sched k ?A' ps m" by blast
        have pin: "p \<in> ?A'" using sched_Fault.hyps(2) py by blast
        have "?A' \<subseteq> insert p A"
          using sched_Fault.hyps(3) sched_Fault.prems(1,2) by blast
        with pA pin have "sched k A (p # ps) (Suc m)"
          using fin card m(2) by (rule sched.sched_Fault)
        then show ?thesis using m(1) by blast
      next
        case False
        have "S' \<subseteq> insert p A"
          using sched_Fault.hyps(3) sched_Fault.prems(1) False by blast
        with pA sched_Fault.hyps(2) have "sched k A (p # ps) (Suc n)"
          using sched_Fault.hyps(4,5,6) by (rule sched.sched_Fault)
        then show ?thesis by blast
      qed
    qed
  qed
qed

section \<open>OPTIMAL against any demand paging schedule\<close>

lemma next_use_Cons:
  "next_use (z # zs) f =
     (if f = z then Fin 0
      else (case next_use zs f of Fin n \<Rightarrow> Fin (n + 1) | Infinite \<Rightarrow> Infinite))"
  by (cases "index_of f zs") (simp_all add: next_use_def)

lemma next_use_nonneg: "next_use zs f = Fin n \<Longrightarrow> 0 \<le> n"
  by (auto simp: next_use_def split: option.splits)

text \<open>A page that is not nearer than \<open>q\<close> is not accessed before \<open>q\<close>.\<close>

lemma farthest_not_before:
  assumes "\<not> dist_gt (next_use ps q) (next_use ps v)" "q \<noteq> v"
  shows "v \<notin> set (takeWhile (\<lambda>z. z \<noteq> q) ps)"
  using assms(1)
proof (induction ps)
  case Nil
  then show ?case by simp
next
  case (Cons z zs)
  show ?case
  proof (cases "z = q")
    case True
    then show ?thesis by simp
  next
    case zq: False
    show ?thesis
    proof (cases "z = v")
      case True
      have "dist_gt (next_use (z # zs) q) (Fin 0)"
      proof (cases "next_use zs q")
        case (Fin n)
        then show ?thesis using zq next_use_nonneg [OF Fin] by (simp add: next_use_Cons)
      next
        case Infinite
        then show ?thesis using zq by (simp add: next_use_Cons)
      qed
      moreover have "next_use (z # zs) v = Fin 0" using True by (simp add: next_use_Cons)
      ultimately show ?thesis using Cons.prems by simp
    next
      case zv: False
      have "\<not> dist_gt (next_use zs q) (next_use zs v)"
        using Cons.prems zq zv
        by (cases "next_use zs q"; cases "next_use zs v") (simp_all add: next_use_Cons)
      from Cons.IH [OF this] show ?thesis using zq zv by simp
    qed
  qed
qed

lemma set_update_distinct:
  "distinct xs \<Longrightarrow> i < length xs \<Longrightarrow> set (xs[i := p]) = insert p (set xs - {xs ! i})"
proof (induction xs arbitrary: i)
  case Nil
  then show ?case by simp
next
  case (Cons x xs)
  show ?case
  proof (cases i)
    case 0
    then show ?thesis using Cons.prems by auto
  next
    case (Suc j)
    then have "set (xs[j := p]) = insert p (set xs - {xs ! j})"
      using Cons.IH [of j] Cons.prems by simp
    moreover have "x \<noteq> xs ! j" using Cons.prems Suc by auto
    ultimately show ?thesis using Suc by auto
  qed
qed

text \<open>One iteration of OPTIMAL, on the set of resident pages.\<close>

lemma opt_step_sets:
  assumes "0 < k" "frames_ok k s"
  shows "\<exists>s1. opt_step k pages i p s = Inr s1 \<and> frames_ok k s1 \<and>
           (if p \<in> set (frames s) then frames s1 = frames s \<and> faults s1 = faults s
            else faults s1 = Suc (faults s) \<and>
              (if int (length (frames s)) < k then set (frames s1) = insert p (set (frames s))
               else card (set (frames s)) = nat k \<and>
                 (\<exists>v \<in> set (frames s). set (frames s1) = insert p (set (frames s) - {v}) \<and>
                    (\<forall>f \<in> set (frames s).
                       \<not> dist_gt (next_use (drop (i + 1) pages) f)
                            (next_use (drop (i + 1) pages) v)))))"
proof (cases "p \<in> set (frames s)")
  case True
  then show ?thesis using assms
    by (simp add: opt_step_def frames_ok_def)
next
  case False
  show ?thesis
  proof (cases "int (length (frames s)) < k")
    case True
    then show ?thesis using assms False
      by (simp add: opt_step_def frames_ok_def)
  next
    case full: False
    with assms have ne: "frames s \<noteq> []" and len: "length (frames s) = nat k"
      and dist: "distinct (frames s)"
      by (auto simp add: frames_ok_def)
    from opt_victim_result [OF ne, of "drop (i + 1) pages"] obtain j where
      j: "j < length (frames s)" and
      v: "opt_victim (drop (i + 1) pages) (frames s) = Some (frames s ! j)" and
      idx: "index_of (frames s ! j) (frames s) = Some j" and
      far: "\<forall>f \<in> set (frames s).
              \<not> dist_gt (next_use (drop (i + 1) pages) f)
                   (next_use (drop (i + 1) pages) (frames s ! j))"
      by blast
    let ?s1 = "s\<lparr>faults := faults s + 1,
                 frames := (frames s)[j := p],
                 log := log s @ [LogReplaced (i + 1) p (frames s ! j)],
                 steps := steps s @ [(p, (frames s)[j := p], FAULT)]\<rparr>"
    have step: "opt_step k pages i p s = Inr ?s1"
      using False full v idx by (simp add: opt_step_def)
    have d: "distinct ((frames s)[j := p])"
      using dist False by (simp add: distinct_update_new)
    have ok: "frames_ok k ?s1"
      using d assms(2) by (simp add: frames_ok_def)
    have card: "card (set (frames s)) = nat k"
      using dist len by (simp add: distinct_card)
    have sets: "set (frames ?s1) = insert p (set (frames s) - {frames s ! j})"
      using set_update_distinct [OF dist j] by simp
    have vin: "frames s ! j \<in> set (frames s)" using j by simp
    have "faults ?s1 = Suc (faults s)" by simp
    with step ok card sets vin far False full show ?thesis by (intro exI [of _ ?s1]) auto
  qed
qed

lemma drop_Suc_of_Cons: "drop i xs = p # ps \<Longrightarrow> drop (Suc i) xs = ps"
  by (metis drop_Suc list.sel(3) tl_drop)

text \<open>
  OPTIMAL, started in any state with the accesses \<open>ps\<close> left, faults no more often than
  any demand paging schedule from the same resident set.
\<close>

lemma opt_le_sched:
  assumes "0 < k"
  shows "frames_ok k s \<Longrightarrow> drop i pages = ps \<Longrightarrow> sched (nat k) (set (frames s)) ps n \<Longrightarrow>
         \<exists>s'. opt_loop k pages i s ps = Inr s' \<and> faults s' \<le> faults s + n"
proof (induction ps arbitrary: i s n)
  case Nil
  then show ?case by simp
next
  case (Cons p ps)
  let ?fut = "drop (i + 1) pages"
  have fut: "drop (Suc i) pages = ps" using Cons.prems(2) by (rule drop_Suc_of_Cons)
  then have fut': "?fut = ps" by simp
  from opt_step_sets [OF assms Cons.prems(1), of pages i p] obtain s1 where
    step: "opt_step k pages i p s = Inr s1" and ok1: "frames_ok k s1" and
    eff: "if p \<in> set (frames s) then frames s1 = frames s \<and> faults s1 = faults s
          else faults s1 = Suc (faults s) \<and>
              (if int (length (frames s)) < k then set (frames s1) = insert p (set (frames s))
               else card (set (frames s)) = nat k \<and>
                 (\<exists>v \<in> set (frames s). set (frames s1) = insert p (set (frames s) - {v}) \<and>
                    (\<forall>f \<in> set (frames s).
                       \<not> dist_gt (next_use ?fut f) (next_use ?fut v))))"
    by blast
  have loop: "opt_loop k pages i s (p # ps) = opt_loop k pages (Suc i) s1 ps"
    using step by simp
  have fin1: "finite (set (frames s1))" by simp
  have card1: "card (set (frames s1)) \<le> nat k" using assms ok1 by (rule frames_ok_card)
  show ?case
  proof (cases "p \<in> set (frames s)")
    case True
    with eff have same: "frames s1 = frames s" "faults s1 = faults s" by simp_all
    from Cons.prems(3) True have "sched (nat k) (set (frames s)) ps n"
      by (auto elim: sched_ConsE)
    then have "sched (nat k) (set (frames s1)) ps n" using same by simp
    from Cons.IH [OF ok1 fut this] obtain s' where
      "opt_loop k pages (Suc i) s1 ps = Inr s'" "faults s' \<le> faults s1 + n"
      by blast
    then show ?thesis using loop same by auto
  next
    case False
    with eff have f1: "faults s1 = Suc (faults s)" by simp
    from Cons.prems(3) False obtain S' n' where
      n: "n = Suc n'" and S': "p \<in> S'" "S' \<subseteq> insert p (set (frames s))" "finite S'"
      "card S' \<le> nat k" "sched (nat k) S' ps n'"
      by (auto elim: sched_ConsE)
    have "\<exists>m \<le> n'. sched (nat k) (set (frames s1)) ps m"
    proof (cases "int (length (frames s)) < k")
      case True
      with eff False have "set (frames s1) = insert p (set (frames s))" by simp
      then have "S' \<subseteq> set (frames s1)" using S'(2) by simp
      with S'(5) show ?thesis using fin1 card1 by (rule sched_mono)
    next
      case full: False
      with eff False obtain v where
        cardS: "card (set (frames s)) = nat k" and
        v: "v \<in> set (frames s)" "set (frames s1) = insert p (set (frames s) - {v})" and
        far: "\<forall>f \<in> set (frames s). \<not> dist_gt (next_use ?fut f) (next_use ?fut v)"
        by auto
      show ?thesis
      proof (cases "v \<in> S'")
        case False
        then have "S' \<subseteq> set (frames s1)" using S'(2) v(2) by blast
        with S'(5) show ?thesis using fin1 card1 by (rule sched_mono)
      next
        case True
        have "\<not> set (frames s) \<subseteq> S'"
        proof
          assume "set (frames s) \<subseteq> S'"
          then have "insert p (set (frames s)) \<subseteq> S'" using S'(1) by simp
          with S'(3) have "card (insert p (set (frames s))) \<le> card S'" by (rule card_mono)
          moreover have "card (insert p (set (frames s))) = Suc (nat k)"
            using \<open>p \<notin> set (frames s)\<close> cardS by simp
          ultimately show False using S'(4) by simp
        qed
        then obtain q where q: "q \<in> set (frames s)" "q \<notin> S'" by blast
        then have qv: "q \<noteq> v" using True by blast
        have a: "S' - {v} \<subseteq> set (frames s1)" using S'(2) v(2) by blast
        have b: "q \<in> set (frames s1)" using q(1) qv v(2) by simp
        have "\<not> dist_gt (next_use ps q) (next_use ps v)"
          using far q(1) fut' by simp
        then have c: "v \<notin> set (takeWhile (\<lambda>z. z \<noteq> q) ps)"
          using qv by (rule farthest_not_before)
        from S'(5) a b q(2) fin1 card1 c show ?thesis by (rule sched_exchange)
      qed
    qed
    then obtain m where m: "m \<le> n'" "sched (nat k) (set (frames s1)) ps m" by blast
    from Cons.IH [OF ok1 fut m(2)] obtain s' where
      "opt_loop k pages (Suc i) s1 ps = Inr s'" "faults s' \<le> faults s1 + m"
      by blast
    then show ?thesis using loop f1 n m(1) by auto
  qed
qed

text \<open>
  C1: for every reference string and every positive frame count, all four simulators
  return, and the fault count of OPTIMAL is at most the fault count of FIFO, of LRU and
  of LFU on the same input.
\<close>

theorem optimal_faults_least:
  assumes "0 < frame_count"
  shows "\<exists>opt_faults fifo_faults lru_faults lfu_faults.
           faults_of (optimal_page_replacement pages frame_count) = Some opt_faults \<and>
           faults_of (fifo_page_replacement pages frame_count) = Some fifo_faults \<and>
           faults_of (lru_page_replacement pages frame_count) = Some lru_faults \<and>
           faults_of (lfu_page_replacement pages frame_count) = Some lfu_faults \<and>
           opt_faults \<le> fifo_faults \<and> opt_faults \<le> lru_faults \<and> opt_faults \<le> lfu_faults"
proof -
  let ?k = frame_count
  have ok: "frames_ok ?k opt_init" using assms by (simp add: init_inv)
  have bound: "\<exists>s'. opt_loop ?k pages 0 opt_init pages = Inr s' \<and> faults s' \<le> n"
    if "sched (nat ?k) {} pages n" for n
  proof -
    have "sched (nat ?k) (set (frames opt_init)) pages n"
      using that by (simp add: init_fields)
    from opt_le_sched [OF assms ok _ this, of 0 pages] show ?thesis
      by (simp add: init_fields)
  qed
  from fifo_returns [OF assms, of pages] obtain sf where
    sf: "lazy_run ?k fifo_init pages sf"
        "fifo_page_replacement pages ?k = Inr (steps sf, faults sf, hits sf, log sf)"
    by blast
  from lru_returns [OF assms, of pages] obtain sl where
    sl: "lazy_run ?k lru_init pages sl"
        "lru_page_replacement pages ?k = Inr (steps sl, faults sl, hits sl, log sl)"
    by blast
  from lfu_returns [OF assms, of pages] obtain su where
    su: "lazy_run ?k lfu_init pages su"
        "lfu_page_replacement pages ?k = Inr (steps su, faults su, hits su, log su)"
    by blast
  from opt_returns [OF assms, of pages] obtain so where
    so: "opt_loop ?k pages 0 opt_init pages = Inr so"
        "optimal_page_replacement pages ?k = Inr (steps so, faults so, hits so, log so)"
    by blast
  from lazy_run_sched [OF assms sf(1)] have "sched (nat ?k) {} pages (faults sf)"
    by (simp add: init_fields)
  from bound [OF this] so(1) have 1: "faults so \<le> faults sf" by simp
  from lazy_run_sched [OF assms sl(1)] have "sched (nat ?k) {} pages (faults sl)"
    by (simp add: init_fields)
  from bound [OF this] so(1) have 2: "faults so \<le> faults sl" by simp
  from lazy_run_sched [OF assms su(1)] have "sched (nat ?k) {} pages (faults su)"
    by (simp add: init_fields)
  from bound [OF this] so(1) have 3: "faults so \<le> faults su" by simp
  have "faults_of (optimal_page_replacement pages ?k) = Some (faults so)"
    "faults_of (fifo_page_replacement pages ?k) = Some (faults sf)"
    "faults_of (lru_page_replacement pages ?k) = Some (faults sl)"
    "faults_of (lfu_page_replacement pages ?k) = Some (faults su)"
    using so(2) sf(2) sl(2) su(2) by (simp_all add: faults_of_def)
  with 1 2 3 show ?thesis by blast
qed

theorem optimal_faults_least_witness:
  "(0::int) < 3 \<and>
   (\<exists>opt_faults fifo_faults lru_faults lfu_faults.
      faults_of (optimal_page_replacement [7, 0, 1, 2, 0, 3, 0, 4] 3) = Some opt_faults \<and>
      faults_of (fifo_page_replacement [7, 0, 1, 2, 0, 3, 0, 4] 3) = Some fifo_faults \<and>
      faults_of (lru_page_replacement [7, 0, 1, 2, 0, 3, 0, 4] 3) = Some lru_faults \<and>
      faults_of (lfu_page_replacement [7, 0, 1, 2, 0, 3, 0, 4] 3) = Some lfu_faults \<and>
      opt_faults \<le> fifo_faults \<and> opt_faults \<le> lru_faults \<and> opt_faults \<le> lfu_faults)"
proof -
  have h: "(0::int) < 3" by simp
  from h optimal_faults_least [OF h, of "[7, 0, 1, 2, 0, 3, 0, 4]"]
  show ?thesis by (rule conjI)
qed

end
